theory Spec2Isabelle
  imports Main "HOL-Library.Word" "HOL-Library.Sublist"
begin

section \<open>JavaScript strings\<close>

text \<open>
  A JavaScript string is a sequence of UTF-16 code units. The functions below are the
  built-ins of \<^verbatim>\<open>String.prototype\<close> and \<^verbatim>\<open>Array.prototype\<close> that the plugin
  calls, restricted to the argument shapes the plugin uses. \<open>str\<close> reads an ASCII
  literal as a JavaScript string.
\<close>

type_synonym code_unit = "16 word"
type_synonym jsstring = "code_unit list"

definition str :: "string \<Rightarrow> jsstring" where
  "str s = map (\<lambda>c. of_nat (of_char c)) s"

definition slash :: code_unit where "slash = 0x2F"
definition backslash :: code_unit where "backslash = 0x5C"
definition colon :: code_unit where "colon = 0x3A"
definition dot :: code_unit where "dot = 0x2E"
definition dash :: code_unit where "dash = 0x2D"
definition space :: code_unit where "space = 0x20"

text \<open>\<^verbatim>\<open>s.includes(sub)\<close>: \<open>sub\<close> occurs in \<open>s\<close> as a contiguous substring.\<close>

primrec includes_sub :: "'a list \<Rightarrow> 'a list \<Rightarrow> bool" where
  "includes_sub [] sub = (sub = [])"
| "includes_sub (c # cs) sub = (prefix sub (c # cs) \<or> includes_sub cs sub)"

text \<open>\<^verbatim>\<open>s.lastIndexOf(c)\<close> for a one-character \<open>c\<close>: the last index of \<open>c\<close>, or \<open>-1\<close>.\<close>

fun lastIndexOf :: "'a list \<Rightarrow> 'a \<Rightarrow> int" where
  "lastIndexOf [] c = -1"
| "lastIndexOf (x # xs) c =
     (let r = lastIndexOf xs c in
      if r \<noteq> -1 then r + 1 else if x = c then 0 else -1)"

text \<open>\<^verbatim>\<open>s.split(sep)\<close> for a one-character separator; the result is never empty.\<close>

fun split :: "'a \<Rightarrow> 'a list \<Rightarrow> 'a list list" where
  "split sep [] = [[]]"
| "split sep (c # cs) =
     (if c = sep then [] # split sep cs
      else (case split sep cs of
              [] \<Rightarrow> [[c]]
            | part # parts \<Rightarrow> (c # part) # parts))"

text \<open>\<^verbatim>\<open>parts.join(sep)\<close> for a one-character separator.\<close>

fun join :: "'a \<Rightarrow> 'a list list \<Rightarrow> 'a list" where
  "join sep [] = []"
| "join sep [part] = part"
| "join sep (part # parts) = part @ sep # join sep parts"

text \<open>
  The class \<^verbatim>\<open>\s\<close> of a regular expression without the \<^verbatim>\<open>u\<close> flag, which is also
  the set \<^verbatim>\<open>trim()\<close> strips: ECMAScript's WhiteSpace and LineTerminator code points.
\<close>

definition isWhiteSpace :: "code_unit \<Rightarrow> bool" where
  "isWhiteSpace c \<longleftrightarrow>
     c = 0x09 \<or> c = 0x0A \<or> c = 0x0B \<or> c = 0x0C \<or> c = 0x0D \<or> c = 0x20 \<or> c = 0xA0 \<or>
     c = 0x1680 \<or> (0x2000 \<le> c \<and> c \<le> 0x200A) \<or> c = 0x2028 \<or> c = 0x2029 \<or>
     c = 0x202F \<or> c = 0x205F \<or> c = 0x3000 \<or> c = 0xFEFF"

text \<open>\<^verbatim>\<open>s.trim()\<close>.\<close>

definition trim :: "jsstring \<Rightarrow> jsstring" where
  "trim s = rev (dropWhile isWhiteSpace (rev (dropWhile isWhiteSpace s)))"

text \<open>
  \<^verbatim>\<open>s.replace(/X+/g, r)\<close> for a character class \<open>X\<close> given as a predicate: every maximal
  run of characters of the class is replaced by the single character \<open>r\<close>.
\<close>

function replaceRuns :: "('a \<Rightarrow> bool) \<Rightarrow> 'a \<Rightarrow> 'a list \<Rightarrow> 'a list" where
  "replaceRuns P r [] = []"
| "replaceRuns P r (c # cs) =
     (if P c then r # replaceRuns P r (dropWhile P cs) else c # replaceRuns P r cs)"
  by pat_completeness auto
termination
  by (relation "measure (\<lambda>(P, r, cs). length cs)")
     (auto simp: le_imp_less_Suc length_dropWhile_le)

text \<open>\<^verbatim>\<open>s.replace(/^\/+|\/+$/g, '')\<close>: leading and trailing slashes are removed.\<close>

definition stripSlashes :: "jsstring \<Rightarrow> jsstring" where
  "stripSlashes s =
     rev (dropWhile (\<lambda>c. c = slash) (rev (dropWhile (\<lambda>c. c = slash) s)))"

section \<open>SafetyUtils: the pure part (safetyUtils.ts)\<close>

text \<open>\<^verbatim>\<open>isPathInVault(path)\<close>, lines 16 to 37.\<close>

definition isPathInVault :: "jsstring \<Rightarrow> bool" where
  "isPathInVault path =
     (if includes_sub path (str ''../'') \<or> includes_sub path (str ''..'' @ [backslash]) then False
      else
        let normalizedPath = stripSlashes path;
            pathComponents = split slash normalizedPath
        in list_all (\<lambda>component.
             component \<noteq> [] \<and>
             component \<noteq> str ''.'' \<and>
             component \<noteq> str ''..'' \<and>
             \<not> includes_sub component [backslash] \<and>
             \<not> includes_sub component [colon]) pathComponents)"

text \<open>
  The character class of the first replacement of \<open>sanitizeString\<close>: less-than,
  greater-than, colon, double quote, vertical bar, question mark, asterisk and backslash.
\<close>

definition isInvalidChar :: "code_unit \<Rightarrow> bool" where
  "isInvalidChar c \<longleftrightarrow>
     c = 0x3C \<or> c = 0x3E \<or> c = 0x3A \<or> c = 0x22 \<or> c = 0x7C \<or> c = 0x3F \<or> c = 0x2A \<or> c = 0x5C"

text \<open>\<^verbatim>\<open>sanitizeString(str)\<close>, lines 58 to 64: four steps, in the source's order.\<close>

definition sanitizeString :: "jsstring \<Rightarrow> jsstring" where
  "sanitizeString s =
     trim
       (replaceRuns (\<lambda>c. c = dash) dash
         (replaceRuns isWhiteSpace space
           (map (\<lambda>c. if isInvalidChar c then dash else c) s)))"

text \<open>
  \<^verbatim>\<open>sanitizePath(filename)\<close>, lines 39 to 56. \<^verbatim>\<open>slice(0, i)\<close> and \<^verbatim>\<open>slice(i)\<close> with
  \<open>0 \<le> i \<le> length\<close> are \<open>take\<close> and \<open>drop\<close>.
\<close>

definition sanitizePath :: "jsstring \<Rightarrow> jsstring" where
  "sanitizePath filename =
     (let lastDotIndex = lastIndexOf filename dot in
      if lastDotIndex = -1 then sanitizeString filename
      else
        let baseName = take (nat lastDotIndex) filename;
            extension = drop (nat lastDotIndex) filename;
            sanitizedBase = sanitizeString baseName
        in sanitizedBase @ extension)"

text \<open>
  The two halves \<open>sanitizePath\<close> cuts a file name into at its last dot, under the names
  of the source's local constants.
\<close>

definition baseName :: "jsstring \<Rightarrow> jsstring" where
  "baseName filename = take (nat (lastIndexOf filename dot)) filename"

definition extension :: "jsstring \<Rightarrow> jsstring" where
  "extension filename = drop (nat (lastIndexOf filename dot)) filename"

section \<open>The environment: vault adapter, pdf-lib documents, notices\<close>

text \<open>
  Errors are JavaScript \<^verbatim>\<open>Error\<close> objects; the plugin only ever reads their
  \<^verbatim>\<open>message\<close>. Each constructor stands for one \<^verbatim>\<open>throw\<close> site of the source and
  \<open>message\<close> gives its text; \<open>External\<close> is an error thrown by the vault adapter or by
  pdf-lib, with the message it carries.
\<close>

datatype error =
    External string
  | InvalidPath
  | CreateDirectoryFailed string
  | SaveFailed string
  | NotSaved
  | VerifyFailed string
  | SourceUnresolved
  | OutputOutsideVault

fun message :: "error \<Rightarrow> string" where
  "message (External m) = m"
| "message InvalidPath = ''Invalid path: attempting to access location outside vault''"
| "message (CreateDirectoryFailed cause) = ''Failed to create directory: '' @ cause"
| "message (SaveFailed cause) = ''Failed to save PDF: '' @ cause"
| "message NotSaved = ''File was not saved successfully''"
| "message (VerifyFailed cause) = ''Failed to verify saved PDF: '' @ cause"
| "message SourceUnresolved = ''Could not resolve source file path''"
| "message OutputOutsideVault = ''Output path must be within the vault''"

text \<open>
  What \<^verbatim>\<open>validateInput\<close> of the modal returns: \<open>SelectFile\<close> is the message
  \<^verbatim>\<open>Please select a PDF file\<close>, \<open>NotLoaded\<close> is \<^verbatim>\<open>PDF document not loaded\<close>,
  \<open>InvalidNumbers\<close> is \<^verbatim>\<open>Please enter valid page numbers\<close>, \<open>OutOfBounds n\<close> is
  \<^verbatim>\<open>Page numbers must be between 1 and n\<close>, and \<open>NoFilename\<close> is
  \<^verbatim>\<open>Please enter an output filename\<close>.

  The notices the plugin shows: a validation message, the prompt
  \<^verbatim>\<open>File p already exists. Overwrite?\<close>, \<^verbatim>\<open>Successfully created p\<close>, and
  \<^verbatim>\<open>Error splitting PDF: m\<close> for the message \<open>m\<close> of a caught error.
\<close>

datatype validation =
    SelectFile
  | NotLoaded
  | InvalidNumbers
  | OutOfBounds nat
  | NoFilename

datatype notice =
    ValidationNotice validation
  | OverwritePrompt jsstring
  | SuccessNotice jsstring
  | ErrorNotice string

type_synonym bytes = "8 word list"

text \<open>
  The state the plugin acts on. \<open>files\<close> and \<open>folders\<close> are the vault as the raw adapter
  sees it, by path. \<open>faults\<close> is the fate of the coming adapter calls, one entry per
  call: \<open>Some m\<close> makes the call throw an error with message \<open>m\<close> and change nothing,
  \<open>None\<close> (or an exhausted list) lets it run. So any adapter call can fail, for any
  reason (disk full, a folder that another process created in between), and a call
  that returns has had its effect. \<open>docs\<close> holds the pages of every pdf-lib document by
  handle, so that two documents are two handles; handles below \<open>nextDoc\<close> are
  allocated. \<open>notices\<close> are the notices shown, in order.
\<close>

record 'p world =
  files :: "jsstring \<rightharpoonup> bytes"
  folders :: "jsstring set"
  faults :: "string option list"
  docs :: "nat \<Rightarrow> 'p list"
  nextDoc :: nat
  notices :: "notice list"

text \<open>
  An \<^verbatim>\<open>async\<close> function: it runs on the state and either throws (\<open>Inl\<close>) or returns
  (\<open>Inr\<close>). \<open>andThen\<close> is \<^verbatim>\<open>await\<close> followed by the rest of the body, \<open>tryCatch\<close> is
  \<^verbatim>\<open>try { ... } catch (error) { ... }\<close>.
\<close>

type_synonym ('p, 'a) io = "'p world \<Rightarrow> (error + 'a) \<times> 'p world"

definition ret :: "'a \<Rightarrow> ('p, 'a) io" where
  "ret x w = (Inr x, w)"

definition throw :: "error \<Rightarrow> ('p, 'a) io" where
  "throw e w = (Inl e, w)"

definition andThen :: "('p, 'a) io \<Rightarrow> ('a \<Rightarrow> ('p, 'b) io) \<Rightarrow> ('p, 'b) io" where
  "andThen m k w = (case m w of (Inl e, w') \<Rightarrow> (Inl e, w') | (Inr x, w') \<Rightarrow> k x w')"

definition tryCatch :: "('p, 'a) io \<Rightarrow> (error \<Rightarrow> ('p, 'a) io) \<Rightarrow> ('p, 'a) io" where
  "tryCatch m handler w =
     (case m w of (Inl e, w') \<Rightarrow> handler e w' | (Inr x, w') \<Rightarrow> (Inr x, w'))"

subsection \<open>The raw adapter (\<^verbatim>\<open>app.vault.adapter\<close>)\<close>

text \<open>
  Every adapter call consumes one entry of \<open>faults\<close>. A call that is not made to fail has
  its whole effect at once: \<open>writeBinary\<close> stores the complete buffer, and \<open>exists\<close> is
  true of a file and of a folder. \<open>remove\<close> and \<open>readBinary\<close> of a path without a file
  throw; \<open>stat\<close> gives the size, or \<^verbatim>\<open>null\<close>.
\<close>

definition adapterCall :: "('p, 'a) io \<Rightarrow> ('p, 'a) io" where
  "adapterCall act w =
     (case faults w of
        Some m # rest \<Rightarrow> (Inl (External m), w\<lparr>faults := rest\<rparr>)
      | _ \<Rightarrow> act (w\<lparr>faults := tl (faults w)\<rparr>))"

definition adapter_exists :: "jsstring \<Rightarrow> ('p, bool) io" where
  "adapter_exists path =
     adapterCall (\<lambda>w. (Inr (files w path \<noteq> None \<or> path \<in> folders w), w))"

definition adapter_mkdir :: "jsstring \<Rightarrow> ('p, unit) io" where
  "adapter_mkdir path =
     adapterCall (\<lambda>w. (Inr (), w\<lparr>folders := insert path (folders w)\<rparr>))"

definition adapter_writeBinary :: "jsstring \<Rightarrow> bytes \<Rightarrow> ('p, unit) io" where
  "adapter_writeBinary path data =
     adapterCall (\<lambda>w. (Inr (), w\<lparr>files := (files w)(path \<mapsto> data)\<rparr>))"

definition adapter_remove :: "jsstring \<Rightarrow> ('p, unit) io" where
  "adapter_remove path =
     adapterCall (\<lambda>w.
       if files w path \<noteq> None then (Inr (), w\<lparr>files := (files w)(path := None)\<rparr>)
       else (Inl (External ''ENOENT: no such file or directory''), w))"

definition adapter_readBinary :: "jsstring \<Rightarrow> ('p, bytes) io" where
  "adapter_readBinary path =
     adapterCall (\<lambda>w.
       case files w path of
         Some data \<Rightarrow> (Inr data, w)
       | None \<Rightarrow> (Inl (External ''ENOENT: no such file or directory''), w))"

definition adapter_stat :: "jsstring \<Rightarrow> ('p, nat option) io" where
  "adapter_stat path =
     adapterCall (\<lambda>w. (Inr (map_option length (files w path)), w))"

subsection \<open>pdf-lib documents\<close>

text \<open>
  \<^verbatim>\<open>PDFDocument.create()\<close> allocates a document without pages.
  \<^verbatim>\<open>dst.copyPages(src, indices)\<close> reads \<^verbatim>\<open>src.getPages()[i]\<close> for every index and
  throws a \<^verbatim>\<open>TypeError\<close> on an index that is out of range; a copy of a page is the
  same page value. \<^verbatim>\<open>dst.addPage(page)\<close> appends. \<^verbatim>\<open>doc.save()\<close> is the codec
  \<open>serialize\<close>, a parameter: it returns the byte buffer or throws.
\<close>

definition create :: "('p, nat) io" where
  "create w = (Inr (nextDoc w), w\<lparr>docs := (docs w)(nextDoc w := []), nextDoc := Suc (nextDoc w)\<rparr>)"

definition getPageCount :: "'p world \<Rightarrow> nat \<Rightarrow> nat" where
  "getPageCount w d = length (docs w d)"

definition copyPages :: "nat \<Rightarrow> nat \<Rightarrow> int list \<Rightarrow> ('p, 'p list) io" where
  "copyPages dst src indices w =
     (if list_all (\<lambda>i. 0 \<le> i \<and> i < int (length (docs w src))) indices
      then (Inr (map (\<lambda>i. docs w src ! nat i) indices), w)
      else (Inl (External ''TypeError: Cannot read properties of undefined''), w))"

definition addPage :: "nat \<Rightarrow> 'p \<Rightarrow> ('p, unit) io" where
  "addPage dst page w = (Inr (), w\<lparr>docs := (docs w)(dst := docs w dst @ [page])\<rparr>)"

definition save :: "('p list \<Rightarrow> string + bytes) \<Rightarrow> nat \<Rightarrow> ('p, bytes) io" where
  "save serialize d w =
     (case serialize (docs w d) of
        Inl m \<Rightarrow> (Inl (External m), w)
      | Inr pdfBytes \<Rightarrow> (Inr pdfBytes, w))"

definition showNotice :: "notice \<Rightarrow> ('p, unit) io" where
  "showNotice n w = (Inr (), w\<lparr>notices := notices w @ [n]\<rparr>)"

section \<open>SafetyUtils: the part that touches the vault (safetyUtils.ts)\<close>

text \<open>
  \<^verbatim>\<open>validateAndCreatePath(outputPath)\<close>, lines 66 to 95. \<^verbatim>\<open>pathParts.pop()\<close> takes the
  last part off \<open>pathParts\<close>; an empty last part is falsy and becomes \<^verbatim>\<open>'output'\<close>.
\<close>

definition validateAndCreatePath :: "jsstring \<Rightarrow> ('p, jsstring) io" where
  "validateAndCreatePath outputPath =
     (if \<not> isPathInVault outputPath then throw InvalidPath
      else
        let pathParts = split slash outputPath;
            filename = (if last pathParts = [] then str ''output'' else last pathParts);
            directory = join slash (butlast pathParts);
            sanitizedFilename = sanitizePath filename
        in andThen
             (if directory \<noteq> [] then
                tryCatch
                  (andThen (adapter_exists directory) (\<lambda>found.
                     if \<not> found then adapter_mkdir directory else ret ()))
                  (\<lambda>error. throw (CreateDirectoryFailed (message error)))
              else ret ())
             (\<lambda>_. ret (if directory \<noteq> [] then directory @ slash # sanitizedFilename
                        else sanitizedFilename)))"

text \<open>
  The path \<open>validateAndCreatePath\<close> returns when it returns: the same computation
  without the vault.
\<close>

definition safePathOf :: "jsstring \<Rightarrow> jsstring" where
  "safePathOf outputPath =
     (let pathParts = split slash outputPath;
          filename = (if last pathParts = [] then str ''output'' else last pathParts);
          directory = join slash (butlast pathParts);
          sanitizedFilename = sanitizePath filename
      in if directory \<noteq> [] then directory @ slash # sanitizedFilename else sanitizedFilename)"

text \<open>
  \<^verbatim>\<open>ensureDirectoryExists(directory)\<close>, lines 97 to 109. \<open>ensureLoop\<close> is the
  \<^verbatim>\<open>for\<close> loop, its first argument the variable \<open>currentPath\<close>.
\<close>

fun ensureLoop :: "jsstring \<Rightarrow> jsstring list \<Rightarrow> ('p, unit) io" where
  "ensureLoop currentPath [] = ret ()"
| "ensureLoop currentPath (part # parts) =
     (let currentPath' = (if currentPath \<noteq> [] then currentPath @ slash # part else part)
      in andThen (adapter_exists currentPath') (\<lambda>found.
         andThen (if \<not> found then adapter_mkdir currentPath' else ret ()) (\<lambda>_.
         ensureLoop currentPath' parts)))"

definition ensureDirectoryExists :: "jsstring \<Rightarrow> ('p, unit) io" where
  "ensureDirectoryExists directory =
     (if directory = [] then ret ()
      else ensureLoop [] (filter (\<lambda>part. length part > 0) (split slash directory)))"

text \<open>\<^verbatim>\<open>SafetyUtils.ensureSafeOutput(path, fileSize)\<close>, lines 111 to 139.\<close>

datatype safetyCheckResult = SafetyCheckResult (success: bool) (failureMessage: "string option")

definition MAX_PDF_SIZE :: int where
  "MAX_PDF_SIZE = 100 * 1024 * 1024"

definition SafetyUtils_ensureSafeOutput ::
    "jsstring \<Rightarrow> int option \<Rightarrow> ('p, safetyCheckResult) io" where
  "SafetyUtils_ensureSafeOutput path fileSize =
     tryCatch
       (if \<not> isPathInVault path then
          ret (SafetyCheckResult False
                 (Some ''Invalid path: attempting to access location outside vault''))
        else if (case fileSize of None \<Rightarrow> False | Some n \<Rightarrow> n \<noteq> 0 \<and> n > MAX_PDF_SIZE) then
          ret (SafetyCheckResult False (Some ''File size exceeds maximum allowed size''))
        else
          let sanitizedPath = sanitizePath path
          in andThen
               (ensureDirectoryExists (join slash (butlast (split slash sanitizedPath))))
               (\<lambda>_. ret (SafetyCheckResult True None)))
       (\<lambda>error. ret (SafetyCheckResult False (Some (''Safety check failed: '' @ message error))))"

section \<open>PDFProcessor (main.ts, lines 314 to 472)\<close>

text \<open>
  The calls of \<^verbatim>\<open>console.log\<close> and of \<^verbatim>\<open>updateProgress\<close> are left out: no callback is
  ever registered with \<^verbatim>\<open>setProgressCallback\<close>, so \<^verbatim>\<open>updateProgress\<close> does nothing.
  (The file safetyUtils.ts carries, after the class \<^verbatim>\<open>SafetyUtils\<close>, an earlier main.ts
  with a \<^verbatim>\<open>PDFProcessor\<close> that writes the output in one call; the classes below are
  those of main.ts.)
\<close>

text \<open>
  \<^verbatim>\<open>extractPages(doc, startPage, endPage)\<close>, lines 352 to 375.
  \<^verbatim>\<open>Array.from({ length: n }, f)\<close> is empty when \<open>n \<le> 0\<close> (page numbers are taken
  to be integers, as \<^verbatim>\<open>parseInt\<close> yields them). \<open>copyLoop\<close> is the
  \<^verbatim>\<open>for\<close> loop; \<^verbatim>\<open>const [page] = ...\<close> takes the first copied page.
\<close>

fun copyLoop :: "nat \<Rightarrow> nat \<Rightarrow> int list \<Rightarrow> ('p, unit) io" where
  "copyLoop newDoc d [] = ret ()"
| "copyLoop newDoc d (pageIndex # rest) =
     andThen (copyPages newDoc d [pageIndex]) (\<lambda>pages.
       case pages of
         [] \<Rightarrow> throw (External ''TypeError: Cannot read properties of undefined'')
       | page # _ \<Rightarrow>
           andThen (addPage newDoc page) (\<lambda>_. copyLoop newDoc d rest))"

definition extractPages :: "nat \<Rightarrow> int \<Rightarrow> int \<Rightarrow> ('p, nat) io" where
  "extractPages d startPage endPage =
     (let pageIndexes =
            map (\<lambda>i. int i + startPage - 1) [0 ..< nat (endPage - startPage + 1)]
      in andThen create (\<lambda>newDoc.
         andThen (copyLoop newDoc d pageIndexes) (\<lambda>_.
         ret newDoc)))"

text \<open>
  \<^verbatim>\<open>savePDF(doc, outputPath)\<close>, lines 378 to 446. \<^verbatim>\<open>pdfBytes.buffer\<close> is taken to
  hold the bytes of \<^verbatim>\<open>pdfBytes\<close> and no others.
\<close>

definition savePDF ::
    "('p list \<Rightarrow> string + bytes) \<Rightarrow> nat \<Rightarrow> jsstring \<Rightarrow> ('p, unit) io" where
  "savePDF serialize d outputPath =
     andThen (validateAndCreatePath outputPath) (\<lambda>safePath.
       let tempPath = safePath @ str ''.temp''
       in andThen
            (tryCatch
               (andThen (save serialize d) (\<lambda>pdfBytes.
                andThen (adapter_writeBinary tempPath pdfBytes) (\<lambda>_.
                andThen (adapter_exists safePath) (\<lambda>found.
                andThen (if found then adapter_remove safePath else ret ()) (\<lambda>_.
                andThen (adapter_writeBinary safePath pdfBytes) (\<lambda>_.
                tryCatch (adapter_remove tempPath) (\<lambda>error. ret ())))))))
               (\<lambda>error.
                  andThen (tryCatch (adapter_remove tempPath) (\<lambda>cleanupError. ret ())) (\<lambda>_.
                  throw (SaveFailed (message error)))))
            (\<lambda>_.
               tryCatch
                 (andThen (adapter_exists safePath) (\<lambda>finalExists.
                    if \<not> finalExists then throw NotSaved else ret ()))
                 (\<lambda>error. throw (VerifyFailed (message error)))))"

text \<open>
  The \<^verbatim>\<open>try\<close> block of \<open>savePDF\<close> on its own, from \<^verbatim>\<open>doc.save()\<close> to the removal
  of the temporary file.
\<close>

definition saveBlock ::
    "('p list \<Rightarrow> string + bytes) \<Rightarrow> nat \<Rightarrow> jsstring \<Rightarrow> jsstring \<Rightarrow> ('p, unit) io" where
  "saveBlock serialize d safePath tempPath =
     andThen (save serialize d) (\<lambda>pdfBytes.
     andThen (adapter_writeBinary tempPath pdfBytes) (\<lambda>_.
     andThen (adapter_exists safePath) (\<lambda>found.
     andThen (if found then adapter_remove safePath else ret ()) (\<lambda>_.
     andThen (adapter_writeBinary safePath pdfBytes) (\<lambda>_.
     tryCatch (adapter_remove tempPath) (\<lambda>error. ret ()))))))"

text \<open>
  \<^verbatim>\<open>PDFProcessor.ensureSafeOutput(outputPath)\<close>, lines 448 to 471. When the file exists
  the promise settles on a click: \<open>Overwrite\<close> resolves \<open>true\<close>, \<open>Cancel\<close> resolves
  \<open>false\<close>. The click is a parameter; without one (\<open>None\<close>) the promise never settles,
  which is the result \<open>None\<close>.
\<close>

datatype click = Overwrite | Cancel

definition ensureSafeOutput :: "click option \<Rightarrow> jsstring \<Rightarrow> ('p, bool option) io" where
  "ensureSafeOutput user outputPath =
     andThen (validateAndCreatePath outputPath) (\<lambda>safePath.
     andThen (adapter_exists safePath) (\<lambda>found.
       if found then
         andThen (showNotice (OverwritePrompt safePath)) (\<lambda>_.
         ret (case user of
                None \<Rightarrow> None
              | Some Overwrite \<Rightarrow> Some True
              | Some Cancel \<Rightarrow> Some False))
       else ret (Some True)))"

section \<open>PDFResectorModal (main.ts, lines 92 to 308)\<close>

record modal =
  pdfPath :: jsstring
  startPage :: int
  endPage :: int
  outputName :: jsstring
  outputDir :: jsstring
  doc :: "nat option"
  isOpen :: bool

text \<open>
  \<^verbatim>\<open>validateInput()\<close>, lines 216 to 233. A number is falsy when it is \<open>0\<close>, a string
  when it is empty.
\<close>

definition validateInput :: "modal \<Rightarrow> 'p world \<Rightarrow> validation option" where
  "validateInput m w =
     (if pdfPath m = [] then Some SelectFile
      else case doc m of
        None \<Rightarrow> Some NotLoaded
      | Some d \<Rightarrow>
          if startPage m = 0 \<or> endPage m = 0 \<or> startPage m > endPage m then
            Some InvalidNumbers
          else if startPage m < 1 \<or> endPage m > int (getPageCount w d) then
            Some (OutOfBounds (getPageCount w d))
          else if outputName m = [] then Some NoFilename
          else None)"

text \<open>
  \<^verbatim>\<open>app.vault.getAbstractFileByPath(path)\<close>: the file or folder of the vault at
  \<open>path\<close>, or \<^verbatim>\<open>null\<close>.
\<close>

definition getAbstractFileByPath :: "'p world \<Rightarrow> jsstring \<Rightarrow> jsstring option" where
  "getAbstractFileByPath w path =
     (if files w path \<noteq> None \<or> path \<in> folders w then Some path else None)"

text \<open>
  \<^verbatim>\<open>splitPDF()\<close>, lines 236 to 302. \<open>splitBody\<close> is the \<^verbatim>\<open>try\<close> block from
  \<^verbatim>\<open>extractPages\<close> on, run on the document \<open>d\<close> and on the modal whose \<open>outputName\<close> has
  received its extension. \<^verbatim>\<open>toLowerCase\<close> is a parameter.
  \<^verbatim>\<open>substring(0, i)\<close> reads a negative \<open>i\<close> as \<open>0\<close>. Nothing escapes \<open>splitPDF\<close>: a
  caught error becomes a notice. After a validation that passed, \<^verbatim>\<open>this.doc\<close> is not
  \<^verbatim>\<open>null\<close>, so the branch \<open>None\<close> of \<open>doc m\<close> is never taken.
\<close>

definition splitBody ::
    "('p list \<Rightarrow> string + bytes) \<Rightarrow> jsstring \<Rightarrow> nat \<Rightarrow> modal \<Rightarrow> ('p, unit) io" where
  "splitBody serialize sourcePath d m =
     andThen (extractPages d (startPage m) (endPage m)) (\<lambda>newDoc.
       let sourceDirectory = take (nat (lastIndexOf sourcePath slash)) sourcePath;
           outputFolder =
             (if trim (outputDir m) \<noteq> [] then
                (if prefix [slash] (outputDir m) then outputDir m else slash # outputDir m)
              else sourceDirectory);
           outputPath =
             outputFolder @ (if suffix [slash] outputFolder then [] else [slash]) @ outputName m
       in if \<not> isPathInVault outputPath then throw OutputOutsideVault
          else
            andThen (savePDF serialize newDoc outputPath) (\<lambda>_.
            andThen (adapter_exists outputPath) (\<lambda>found.
            andThen (if found then andThen (adapter_stat outputPath) (\<lambda>_. ret ()) else ret ()) (\<lambda>_.
            showNotice (SuccessNotice outputPath)))))"

definition splitPDF ::
    "('p list \<Rightarrow> string + bytes) \<Rightarrow> (jsstring \<Rightarrow> jsstring) \<Rightarrow> modal \<Rightarrow> 'p world
      \<Rightarrow> modal \<times> 'p world" where
  "splitPDF serialize toLowerCase m w =
     (case validateInput m w of
        Some validationError \<Rightarrow> (m, w\<lparr>notices := notices w @ [ValidationNotice validationError]\<rparr>)
      | None \<Rightarrow>
          (case doc m of
             None \<Rightarrow> (m, w)
           | Some d \<Rightarrow>
               (case getAbstractFileByPath w (pdfPath m) of
                  None \<Rightarrow>
                    (m, w\<lparr>notices := notices w @ [ErrorNotice (message SourceUnresolved)]\<rparr>)
                | Some sourcePath \<Rightarrow>
                    if sourcePath = [] then
                      (m, w\<lparr>notices := notices w @ [ErrorNotice (message SourceUnresolved)]\<rparr>)
                    else
                      let m' = (if \<not> suffix (str ''.pdf'') (toLowerCase (outputName m))
                                then m\<lparr>outputName := outputName m @ str ''.pdf''\<rparr> else m)
                      in (case splitBody serialize sourcePath d m' w of
                            (Inr _, w') \<Rightarrow> (m'\<lparr>isOpen := False\<rparr>, w')
                          | (Inl error, w') \<Rightarrow>
                              (m', w'\<lparr>notices := notices w' @ [ErrorNotice (message error)]\<rparr>)))))"

section \<open>Auxiliary notions and scenarios\<close>

text \<open>No two neighbours of a string are both in the class \<open>P\<close>.\<close>

definition apart :: "('a \<Rightarrow> bool) \<Rightarrow> 'a list \<Rightarrow> bool" where
  "apart P s = successively (\<lambda>a b. \<not> (P a \<and> P b)) s"

text \<open>
  A vault holding \<^verbatim>\<open>out.pdf\<close> with three bytes, one loaded document of three pages
  (pages are numbers here), and a given fate for the adapter calls to come. The codec
  of the scenarios writes one byte per page.
\<close>

definition scenario :: "string option list \<Rightarrow> nat world" where
  "scenario plan =
     \<lparr>files = [str ''out.pdf'' \<mapsto> [1, 2, 3]], folders = {}, faults = plan,
      docs = (\<lambda>_. [])(0 := [10, 20, 30]), nextDoc = 1, notices = []\<rparr>"

definition pageCodec :: "nat list \<Rightarrow> string + bytes" where
  "pageCodec pages = Inr (map of_nat pages)"

text \<open>
  How a result \<open>r\<close> and the remaining plan \<open>rest\<close> relate to the plan a computation
  started with when it runs adapter calls and catches nothing: it returns only after
  entries that are all \<open>None\<close>, and it throws exactly the first entry \<open>Some m\<close>, as the
  error \<open>External m\<close>, leaving the entries after it.
\<close>

definition propagated :: "string option list \<Rightarrow> error + 'a \<Rightarrow> string option list \<Rightarrow> bool" where
  "propagated plan r rest =
     (case r of
        Inr _ \<Rightarrow>
          rest = drop (length plan - length rest) plan \<and>
          list_all (\<lambda>x. x = None) (take (length plan - length rest) plan)
      | Inl e \<Rightarrow>
          (case dropWhile (\<lambda>x. x = None) plan of
             Some m # after \<Rightarrow> e = External m \<and> rest = after
           | _ \<Rightarrow> False))"

text \<open>A library of one loaded document with the given pages, and an empty vault.\<close>

definition library :: "nat list \<Rightarrow> nat world" where
  "library pages =
     \<lparr>files = Map.empty, folders = {}, faults = [],
      docs = (\<lambda>_. [])(0 := pages), nextDoc = 1, notices = []\<rparr>"

section \<open>Facts about the string functions\<close>

lemma includes_sub_iff: "includes_sub s sub \<longleftrightarrow> (\<exists>a b. s = a @ sub @ b)"
proof (induction s)
  case Nil
  show ?case by auto
next
  case (Cons c cs)
  show ?case
  proof
    assume "includes_sub (c # cs) sub"
    then consider "prefix sub (c # cs)" | "includes_sub cs sub" by auto
    then show "\<exists>a b. c # cs = a @ sub @ b"
    proof cases
      case 1
      then obtain b where "c # cs = sub @ b" by (auto simp: prefix_def)
      then have "c # cs = [] @ sub @ b" by simp
      then show ?thesis by blast
    next
      case 2
      with Cons.IH obtain a b where "cs = a @ sub @ b" by blast
      then have "c # cs = (c # a) @ sub @ b" by simp
      then show ?thesis by blast
    qed
  next
    assume "\<exists>a b. c # cs = a @ sub @ b"
    then obtain a b where ab: "c # cs = a @ sub @ b" by blast
    show "includes_sub (c # cs) sub"
    proof (cases a)
      case Nil
      with ab have "prefix sub (c # cs)" by (simp add: prefix_def)
      then show ?thesis by simp
    next
      case (Cons x a')
      with ab have "cs = a' @ sub @ b" by simp
      with Cons.IH have "includes_sub cs sub" by blast
      then show ?thesis by simp
    qed
  qed
qed

lemma lastIndexOf_ge: "- 1 \<le> lastIndexOf s c"
  by (induction s) (auto simp: Let_def)

lemma lastIndexOf_none: "lastIndexOf s c = - 1 \<longleftrightarrow> c \<notin> set s"
proof (induction s)
  case Nil
  show ?case by simp
next
  case (Cons x xs)
  have "lastIndexOf xs c + 1 \<noteq> - 1"
    using lastIndexOf_ge [of xs c] by arith
  with Cons show ?case by (auto simp: Let_def)
qed

lemma lastIndexOf_split: "c \<notin> set b \<Longrightarrow> lastIndexOf (a @ c # b) c = int (length a)"
proof (induction a)
  case Nil
  then show ?case by (simp add: lastIndexOf_none)
next
  case (Cons x a)
  then show ?case by (simp add: Let_def)
qed

lemma sanitizeString_Nil: "sanitizeString [] = []"
  by (simp add: sanitizeString_def trim_def)

lemma sanitizePath_split:
  assumes "dot \<notin> set b"
  shows "sanitizePath (a @ dot # b) = sanitizeString a @ dot # b"
  using assms by (simp add: sanitizePath_def lastIndexOf_split Let_def)

lemma sanitizePath_nodot:
  assumes "dot \<notin> set s"
  shows "sanitizePath s = sanitizeString s"
  using assms lastIndexOf_none [of s dot] by (simp add: sanitizePath_def Let_def)

lemma dotfile_unchanged:
  assumes "dot \<notin> set rest"
  shows "sanitizePath (dot # rest) = dot # rest"
  using sanitizePath_split [of rest "[]"] assms by (simp add: sanitizeString_Nil)

lemma apart_Nil: "apart P []"
  by (simp add: apart_def)

lemma apart_Cons: "apart P (c # cs) \<longleftrightarrow> (cs = [] \<or> \<not> (P c \<and> P (hd cs))) \<and> apart P cs"
  by (cases cs) (auto simp: apart_def)

lemma apart_dropWhile: "apart P s \<Longrightarrow> apart P (dropWhile Q s)"
  by (induction s) (auto simp: apart_Cons apart_Nil)

lemma apart_rev: "apart P (rev s) = apart P s"
  unfolding apart_def successively_rev
  by (rule arg_cong [where f = "\<lambda>R. successively R s"]) (intro ext, blast)


lemma set_replaceRuns: "set (replaceRuns P r s) \<subseteq> insert r (set s)"
proof (induction P r s rule: replaceRuns.induct)
  case (1 P r)
  show ?case by (simp add: apart_Nil)
next
  case (2 P r c cs)
  show ?case
  proof (cases "P c")
    case True
    with 2 have "set (replaceRuns P r (dropWhile P cs)) \<subseteq> insert r (set (dropWhile P cs))"
      by simp
    moreover have "set (dropWhile P cs) \<subseteq> set cs"
      by (auto dest: set_dropWhileD)
    ultimately show ?thesis using True by auto
  next
    case False
    with 2 show ?thesis by auto
  qed
qed

lemma replaceRuns_Nil_iff: "replaceRuns P r s = [] \<longleftrightarrow> s = []"
  by (cases s) auto

lemma hd_replaceRuns: "s \<noteq> [] \<Longrightarrow> hd (replaceRuns P r s) = (if P (hd s) then r else hd s)"
  by (cases s) auto

text \<open>A string on which replacing the runs of a class changes nothing.\<close>

lemma replaceRuns_id:
  assumes "\<forall>c \<in> set s. P c \<longrightarrow> c = r"
    and "apart P s"
  shows "replaceRuns P r s = s"
  using assms
proof (induction s)
  case Nil
  show ?case by simp
next
  case (Cons c cs)
  from Cons.prems have tl: "apart P cs"
    by (simp add: apart_Cons)
  from Cons.prems have all: "\<forall>c \<in> set cs. P c \<longrightarrow> c = r" by simp
  have IH: "replaceRuns P r cs = cs" using Cons.IH all tl by blast
  show ?case
  proof (cases "P c")
    case True
    with Cons.prems have "c = r" by simp
    moreover from True Cons.prems have "cs = [] \<or> \<not> P (hd cs)"
      by (auto simp: apart_Cons)
    then have "dropWhile P cs = cs" by (simp add: dropWhile_eq_self_iff)
    ultimately show ?thesis using True IH by simp
  next
    case False
    then show ?thesis using IH by simp
  qed
qed

lemma replaceRuns_normal:
  "apart P (replaceRuns P r s)"
proof (induction P r s rule: replaceRuns.induct)
  case (1 P r)
  show ?case by (simp add: apart_Nil)
next
  case (2 P r c cs)
  show ?case
  proof (cases "P c")
    case True
    let ?d = "dropWhile P cs"
    have IH: "apart P (replaceRuns P r ?d)"
      using 2 True by simp
    have "?d = [] \<or> \<not> P (hd (replaceRuns P r ?d))"
    proof (cases "?d = []")
      case True then show ?thesis by simp
    next
      case False
      then have "\<not> P (hd ?d)" by (rule hd_dropWhile)
      with False show ?thesis by (simp add: hd_replaceRuns)
    qed
    then show ?thesis using True IH
      by (auto simp: apart_Cons replaceRuns_Nil_iff)
  next
    case False
    with 2 show ?thesis by (simp add: apart_Cons)
  qed
qed

lemma replaceRuns_class:
  "\<forall>c \<in> set (replaceRuns P r s). P c \<longrightarrow> c = r"
proof (induction P r s rule: replaceRuns.induct)
  case (1 P r)
  show ?case by (simp add: apart_Nil)
next
  case (2 P r c cs)
  then show ?case by (cases "P c") auto
qed

text \<open>Replacing runs by a character outside a class \<open>Q\<close> makes no two \<open>Q\<close>s adjacent.\<close>

lemma replaceRuns_keeps_apart:
  "\<not> Q r \<Longrightarrow> apart Q s
    \<Longrightarrow> apart Q (replaceRuns P r s)"
proof (induction P r s rule: replaceRuns.induct)
  case (1 P r)
  show ?case by (simp add: apart_Nil)
next
  case (2 P r c cs)
  note nq = "2.prems"(1)
  from "2.prems"(2) have tl: "apart Q cs"
    by (simp add: apart_Cons)
  show ?case
  proof (cases "P c")
    case True
    have "apart Q (dropWhile P cs)"
      using tl by (rule apart_dropWhile)
    with 2 True nq have "apart Q (replaceRuns P r (dropWhile P cs))"
      by simp
    with True nq show ?thesis by (simp add: apart_Cons)
  next
    case False
    with 2 tl nq have IH: "apart Q (replaceRuns P r cs)"
      by simp
    have "cs = [] \<or> \<not> (Q c \<and> Q (hd (replaceRuns P r cs)))"
    proof (cases "cs = []")
      case True then show ?thesis by simp
    next
      case ne: False
      from "2.prems"(2) ne have "\<not> (Q c \<and> Q (hd cs))" by (simp add: apart_Cons)
      with ne nq show ?thesis by (simp add: hd_replaceRuns)
    qed
    with False IH show ?thesis by (auto simp: apart_Cons replaceRuns_Nil_iff)
  qed
qed

lemma last_dropWhile: "dropWhile Q xs \<noteq> [] \<Longrightarrow> last (dropWhile Q xs) = last xs"
proof -
  assume ne: "dropWhile Q xs \<noteq> []"
  have "last (takeWhile Q xs @ dropWhile Q xs) = last (dropWhile Q xs)"
    using ne by (rule last_appendR)
  then show ?thesis by simp
qed

lemma set_trim: "set (trim s) \<subseteq> set s"
  by (auto simp: trim_def dest!: set_dropWhileD)

lemma trim_fixed:
  assumes "t = [] \<or> (\<not> isWhiteSpace (hd t) \<and> \<not> isWhiteSpace (last t))"
  shows "trim t = t"
proof (cases "t = []")
  case True
  then show ?thesis by (simp add: trim_def)
next
  case False
  with assms have h: "\<not> isWhiteSpace (hd t)" and l: "\<not> isWhiteSpace (last t)" by auto
  from h have "dropWhile isWhiteSpace t = t" by (simp add: dropWhile_eq_self_iff)
  moreover from l have "dropWhile isWhiteSpace (rev t) = rev t"
    by (simp add: dropWhile_eq_self_iff hd_rev)
  ultimately show ?thesis by (simp add: trim_def)
qed

lemma trim_ends:
  "trim s = [] \<or> (\<not> isWhiteSpace (hd (trim s)) \<and> \<not> isWhiteSpace (last (trim s)))"
proof -
  let ?s1 = "dropWhile isWhiteSpace s"
  let ?u = "dropWhile isWhiteSpace (rev ?s1)"
  have t: "trim s = rev ?u" by (simp add: trim_def)
  show ?thesis
  proof (cases "?u = []")
    case True
    with t show ?thesis by simp
  next
    case False
    then have hu: "\<not> isWhiteSpace (hd ?u)" by (rule hd_dropWhile)
    from False have lu: "last ?u = last (rev ?s1)" by (rule last_dropWhile)
    have "?s1 \<noteq> []"
    proof
      assume a: "?s1 = []"
      have "?u = dropWhile isWhiteSpace (rev [])" by (simp only: a)
      then have "?u = []" by (simp only: rev.simps dropWhile.simps)
      with False show False by (simp only:)
    qed
    then have "\<not> isWhiteSpace (hd ?s1)" by (rule hd_dropWhile)
    with lu have "\<not> isWhiteSpace (last ?u)" by (simp add: last_rev)
    with hu t show ?thesis by (simp add: hd_rev last_rev)
  qed
qed

lemma trim_keeps_apart: "apart Q s \<Longrightarrow> apart Q (trim s)"
  unfolding trim_def by (simp add: apart_rev apart_dropWhile)

lemma dash_valid: "\<not> isInvalidChar dash" by (simp add: isInvalidChar_def dash_def)
lemma space_valid: "\<not> isInvalidChar space" by (simp add: isInvalidChar_def space_def)
lemma dash_not_white: "\<not> isWhiteSpace dash" by (simp add: isWhiteSpace_def dash_def)
lemma dot_not_dash: "dot \<noteq> dash" by (simp add: dot_def dash_def)
lemma dot_not_space: "dot \<noteq> space" by (simp add: dot_def space_def)

text \<open>The three intermediate strings of \<open>sanitizeString\<close>.\<close>

lemma sanitizeString_set:
  "set (sanitizeString s) \<subseteq> {dash, space} \<union> {c \<in> set s. \<not> isInvalidChar c}"
proof -
  let ?f = "map (\<lambda>c. if isInvalidChar c then dash else c) s"
  let ?g = "replaceRuns isWhiteSpace space ?f"
  let ?h = "replaceRuns (\<lambda>c. c = dash) dash ?g"
  have "set (sanitizeString s) \<subseteq> set ?h"
    unfolding sanitizeString_def by (rule set_trim)
  also have "\<dots> \<subseteq> insert dash (set ?g)" by (rule set_replaceRuns)
  also have "\<dots> \<subseteq> insert dash (insert space (set ?f))"
    using set_replaceRuns [of isWhiteSpace space ?f] by auto
  also have "\<dots> \<subseteq> {dash, space} \<union> {c \<in> set s. \<not> isInvalidChar c}" by auto
  finally show ?thesis .
qed

lemma sanitizeString_valid: "c \<in> set (sanitizeString s) \<Longrightarrow> \<not> isInvalidChar c"
  using sanitizeString_set [of s] dash_valid space_valid by auto

lemma sanitizeString_nodot: "dot \<notin> set s \<Longrightarrow> dot \<notin> set (sanitizeString s)"
  using sanitizeString_set [of s] dot_not_dash dot_not_space by auto

lemma sanitizeString_white:
  "\<forall>c \<in> set (sanitizeString s). isWhiteSpace c \<longrightarrow> c = space"
proof
  fix c assume c: "c \<in> set (sanitizeString s)"
  let ?f = "map (\<lambda>c. if isInvalidChar c then dash else c) s"
  let ?g = "replaceRuns isWhiteSpace space ?f"
  let ?h = "replaceRuns (\<lambda>c. c = dash) dash ?g"
  from c have "c \<in> set ?h" using set_trim [of ?h] by (auto simp: sanitizeString_def)
  then have "c = dash \<or> c \<in> set ?g" using set_replaceRuns [of "\<lambda>c. c = dash" dash ?g] by auto
  then show "isWhiteSpace c \<longrightarrow> c = space"
    using replaceRuns_class [of isWhiteSpace space ?f] dash_not_white by auto
qed

lemma sanitizeString_white_apart: "apart isWhiteSpace (sanitizeString s)"
  unfolding sanitizeString_def
  by (intro trim_keeps_apart replaceRuns_keeps_apart dash_not_white replaceRuns_normal)

lemma sanitizeString_dash_apart: "apart (\<lambda>c. c = dash) (sanitizeString s)"
  unfolding sanitizeString_def
  by (intro trim_keeps_apart replaceRuns_normal)

lemma trim_idem: "trim (trim s) = trim s"
  by (rule trim_fixed [OF trim_ends])

lemma sanitizeString_idem: "sanitizeString (sanitizeString s) = sanitizeString s"
proof -
  let ?r = "sanitizeString s"
  have 1: "map (\<lambda>c. if isInvalidChar c then dash else c) ?r = ?r"
    by (rule map_idI) (simp add: sanitizeString_valid)
  have 2: "replaceRuns isWhiteSpace space ?r = ?r"
    by (rule replaceRuns_id [OF sanitizeString_white sanitizeString_white_apart])
  have 3: "replaceRuns (\<lambda>c. c = dash) dash ?r = ?r"
    by (rule replaceRuns_id) (simp_all add: sanitizeString_dash_apart)
  have 4: "trim ?r = ?r"
    unfolding sanitizeString_def by (rule trim_idem)
  have "sanitizeString ?r = trim (replaceRuns (\<lambda>c. c = dash) dash
         (replaceRuns isWhiteSpace space (map (\<lambda>c. if isInvalidChar c then dash else c) ?r)))"
    by (rule sanitizeString_def)
  also have "\<dots> = trim (replaceRuns (\<lambda>c. c = dash) dash (replaceRuns isWhiteSpace space ?r))"
    by (simp only: 1)
  also have "\<dots> = trim (replaceRuns (\<lambda>c. c = dash) dash ?r)"
    by (simp only: 2)
  also have "\<dots> = trim ?r"
    by (simp only: 3)
  also have "\<dots> = ?r"
    by (rule 4)
  finally show ?thesis .
qed

section \<open>Facts about the adapter calls\<close>

lemma andThen_Inr:
  assumes "andThen m k w = (Inr y, w')"
  obtains x w1 where "m w = (Inr x, w1)" and "k x w1 = (Inr y, w')"
  using assms by (auto simp: andThen_def split: prod.splits sum.splits)

lemma andThen_Inl:
  assumes "andThen m k w = (Inl e, w')"
  obtains (first) "m w = (Inl e, w')"
    | (rest) x w1 where "m w = (Inr x, w1)" and "k x w1 = (Inl e, w')"
  using assms by (auto simp: andThen_def split: prod.splits sum.splits)

lemma tryCatch_cases:
  assumes "tryCatch m h w = (r, w')"
  obtains (ok) x where "m w = (Inr x, w')" and "r = Inr x"
    | (caught) e w1 where "m w = (Inl e, w1)" and "h e w1 = (r, w')"
  using assms by (auto simp: tryCatch_def split: prod.splits sum.splits)

lemma adapterCall_cases:
  assumes "adapterCall act w = (r, w')"
  obtains (fault) m where "r = Inl (External m)" and "w' = w\<lparr>faults := tl (faults w)\<rparr>"
      and "faults w \<noteq> []" and "hd (faults w) = Some m"
    | (run) "act (w\<lparr>faults := tl (faults w)\<rparr>) = (r, w')"
      and "faults w = [] \<or> hd (faults w) = None"
  using assms by (auto simp: adapterCall_def split: list.splits option.splits)

lemma adapter_exists_frame:
  assumes "adapter_exists p w = (r, w')"
  shows "w' = w\<lparr>faults := tl (faults w)\<rparr>"
  using assms unfolding adapter_exists_def by (elim adapterCall_cases) auto

lemma adapter_exists_value:
  assumes "adapter_exists p w = (Inr found, w')"
  shows "found \<longleftrightarrow> files w p \<noteq> None \<or> p \<in> folders w"
  using assms unfolding adapter_exists_def by (elim adapterCall_cases) auto

lemma adapter_writeBinary_ok:
  assumes "adapter_writeBinary p data w = (Inr u, w')"
  shows "w' = w\<lparr>faults := tl (faults w), files := (files w)(p \<mapsto> data)\<rparr>"
  using assms unfolding adapter_writeBinary_def by (elim adapterCall_cases) auto

lemma adapter_writeBinary_fail:
  assumes "adapter_writeBinary p data w = (Inl e, w')"
  shows "w' = w\<lparr>faults := tl (faults w)\<rparr>"
  using assms unfolding adapter_writeBinary_def by (elim adapterCall_cases) auto

lemma adapter_remove_ok:
  assumes "adapter_remove p w = (Inr u, w')"
  shows "w' = w\<lparr>faults := tl (faults w), files := (files w)(p := None)\<rparr>"
  using assms unfolding adapter_remove_def
  by (elim adapterCall_cases) (auto split: if_splits)

lemma adapter_remove_fail:
  assumes "adapter_remove p w = (Inl e, w')"
  shows "w' = w\<lparr>faults := tl (faults w)\<rparr>"
  using assms unfolding adapter_remove_def
  by (elim adapterCall_cases) (auto split: if_splits)

lemma adapter_mkdir_ok:
  assumes "adapter_mkdir p w = (Inr u, w')"
  shows "w' = w\<lparr>faults := tl (faults w), folders := insert p (folders w)\<rparr>"
  using assms unfolding adapter_mkdir_def by (elim adapterCall_cases) auto

lemma adapter_mkdir_fail:
  assumes "adapter_mkdir p w = (Inl e, w')"
  shows "w' = w\<lparr>faults := tl (faults w)\<rparr>"
  using assms unfolding adapter_mkdir_def by (elim adapterCall_cases) auto

text \<open>Removing the temporary file, whatever comes of it, leaves every other file.\<close>

lemma cleanup_frame:
  assumes "tryCatch (adapter_remove p) (\<lambda>error. ret ()) w = (r, w')"
  shows "r = Inr () \<and> (\<forall>q. q \<noteq> p \<longrightarrow> files w' q = files w q) \<and> folders w' = folders w
    \<and> docs w' = docs w"
  using assms
proof (cases rule: tryCatch_cases)
  case (ok x)
  then show ?thesis by (auto dest: adapter_remove_ok)
next
  case (caught e w1)
  then show ?thesis by (auto simp: ret_def dest: adapter_remove_fail)
qed

section \<open>Facts about \<open>validateAndCreatePath\<close> and \<open>savePDF\<close>\<close>

lemma validateAndCreatePath_Inr:
  assumes "validateAndCreatePath p w = (Inr s, w')"
  shows "s = safePathOf p \<and> isPathInVault p \<and> files w' = files w \<and> docs w' = docs w
    \<and> nextDoc w' = nextDoc w \<and> notices w' = notices w"
proof -
  from assms have ok: "isPathInVault p"
    by (auto simp: validateAndCreatePath_def throw_def split: if_splits)
  let ?dir = "join slash (butlast (split slash p))"
  let ?mk = "tryCatch (andThen (adapter_exists ?dir) (\<lambda>found.
                     if \<not> found then adapter_mkdir ?dir else ret ()))
                  (\<lambda>error. throw (CreateDirectoryFailed (message error)))"
  from assms ok obtain u w1 where
    1: "(if ?dir \<noteq> [] then ?mk else ret ()) w = (Inr u, w1)" and
    2: "ret (safePathOf p) w1 = (Inr s, w')"
    by (auto simp: validateAndCreatePath_def safePathOf_def Let_def elim!: andThen_Inr)
  from 2 have s: "s = safePathOf p" and w': "w' = w1" by (auto simp: ret_def)
  have "files w1 = files w \<and> docs w1 = docs w \<and> nextDoc w1 = nextDoc w \<and> notices w1 = notices w"
  proof (cases "?dir = []")
    case True
    with 1 show ?thesis by (simp add: ret_def)
  next
    case False
    with 1 have "?mk w = (Inr u, w1)" by simp
    then show ?thesis
    proof (cases rule: tryCatch_cases)
      case (ok x)
      then show ?thesis
        by (elim andThen_Inr)
           (auto simp: ret_def split: if_splits dest!: adapter_exists_frame adapter_mkdir_ok)
    next
      case (caught e w2)
      then show ?thesis by (simp add: throw_def)
    qed
  qed
  with s w' ok show ?thesis by simp
qed

lemma validateAndCreatePath_Inl:
  assumes "validateAndCreatePath p w = (Inl e, w')"
  shows "(e = InvalidPath \<and> w' = w \<and> \<not> isPathInVault p)
    \<or> ((\<exists>cause. e = CreateDirectoryFailed cause) \<and> isPathInVault p
        \<and> w' = w\<lparr>faults := faults w'\<rparr>)"
proof (cases "isPathInVault p")
  case False
  with assms show ?thesis by (simp add: validateAndCreatePath_def throw_def)
next
  case True
  let ?dir = "join slash (butlast (split slash p))"
  let ?mk = "tryCatch (andThen (adapter_exists ?dir) (\<lambda>found.
                     if \<not> found then adapter_mkdir ?dir else ret ()))
                  (\<lambda>error. throw (CreateDirectoryFailed (message error)))"
  from assms True have "(if ?dir \<noteq> [] then ?mk else ret ()) w = (Inl e, w')"
    by (auto simp: validateAndCreatePath_def Let_def ret_def elim!: andThen_Inl)
  then have mk: "?mk w = (Inl e, w')"
    by (auto simp: ret_def split: if_splits)
  then show ?thesis
  proof (cases rule: tryCatch_cases)
    case (ok x)
    then show ?thesis by simp
  next
    case (caught e1 w1)
    from caught(2) have e: "e = CreateDirectoryFailed (message e1)" and w1: "w1 = w'"
      by (auto simp: throw_def)
    from caught(1) have "w1 = w\<lparr>faults := faults w1\<rparr>"
      by (elim andThen_Inl)
         (auto simp: ret_def split: if_splits dest!: adapter_exists_frame adapter_mkdir_fail)
    with e w1 True show ?thesis by auto
  qed
qed

lemma save_cases:
  assumes "save serialize d w = (r, w')"
  shows "w' = w \<and> (case serialize (docs w d) of Inl m \<Rightarrow> r = Inl (External m) | Inr b \<Rightarrow> r = Inr b)"
  using assms by (auto simp: save_def split: sum.splits)

lemma saveBlock_ok:
  assumes run: "saveBlock serialize d safePath tempPath w = (Inr u, w')"
    and ne: "tempPath \<noteq> safePath"
  shows "docs w' = docs w \<and>
    (\<exists>pdfBytes. serialize (docs w d) = Inr pdfBytes \<and> files w' safePath = Some pdfBytes)"
proof -
  from run [unfolded saveBlock_def] obtain pdfBytes w1 w2 found w3 w4 w5 u1 u2 u3 where
    s: "save serialize d w = (Inr pdfBytes, w1)" and
    t: "adapter_writeBinary tempPath pdfBytes w1 = (Inr u1, w2)" and
    x: "adapter_exists safePath w2 = (Inr found, w3)" and
    rm: "(if found then adapter_remove safePath else ret ()) w3 = (Inr u2, w4)" and
    f: "adapter_writeBinary safePath pdfBytes w4 = (Inr u3, w5)" and
    c: "tryCatch (adapter_remove tempPath) (\<lambda>error. ret ()) w5 = (Inr u, w')"
    by (elim andThen_Inr) blast
  from s have ser: "serialize (docs w d) = Inr pdfBytes" and w1: "w1 = w"
    by (auto dest!: save_cases split: sum.splits)
  from t have d2: "docs w2 = docs w1" by (auto dest!: adapter_writeBinary_ok)
  from x have d3: "docs w3 = docs w2" by (auto dest!: adapter_exists_frame)
  from rm have d4: "docs w4 = docs w3"
    by (auto simp: ret_def split: if_splits dest!: adapter_remove_ok)
  from f have d5: "docs w5 = docs w4" and f5: "files w5 safePath = Some pdfBytes"
    by (auto dest!: adapter_writeBinary_ok)
  from ne have "files w' safePath = files w5 safePath" and "docs w' = docs w5"
    using cleanup_frame [OF c] by auto
  with ser w1 d2 d3 d4 d5 f5 show ?thesis by simp
qed

lemma adapterCall_External:
  assumes "adapterCall act w = (Inl e, w')"
    and "\<And>v e1 v1. act v = (Inl e1, v1) \<Longrightarrow> \<exists>m. e1 = External m"
  shows "\<exists>m. e = External m"
  using assms(1)
proof (cases rule: adapterCall_cases)
  case (fault m)
  then show ?thesis by simp
next
  case run
  from assms(2) [OF run(1)] show ?thesis .
qed

lemma adapter_writeBinary_External:
  "adapter_writeBinary p data w = (Inl e, w') \<Longrightarrow> \<exists>m. e = External m"
  unfolding adapter_writeBinary_def by (erule adapterCall_External) simp

lemma adapter_exists_External:
  "adapter_exists p w = (Inl e, w') \<Longrightarrow> \<exists>m. e = External m"
  unfolding adapter_exists_def by (erule adapterCall_External) simp

lemma adapter_remove_External:
  "adapter_remove p w = (Inl e, w') \<Longrightarrow> \<exists>m. e = External m"
  unfolding adapter_remove_def by (erule adapterCall_External) (auto split: if_splits)

lemma adapter_remove_present:
  "adapter_remove p w = (Inr u, w') \<Longrightarrow> files w p \<noteq> None"
  unfolding adapter_remove_def by (elim adapterCall_cases) (auto split: if_splits)

text \<open>Where the \<^verbatim>\<open>try\<close> block of \<open>savePDF\<close> fails, and what the final path then holds.\<close>

lemma saveBlock_fail_by_step:
  assumes run: "saveBlock serialize d safePath tempPath w = (Inl e, w')"
    and ne: "tempPath \<noteq> safePath"
  shows "\<exists>cause. e = External cause \<and>
    ((serialize (docs w d) = Inl cause \<and> files w' safePath = files w safePath)
     \<or> (\<exists>pdfBytes. serialize (docs w d) = Inr pdfBytes \<and>
          (let tempWrite = adapter_writeBinary tempPath pdfBytes w;
               check = adapter_exists safePath (snd tempWrite);
               removal = adapter_remove safePath (snd check);
               finalWrite = adapter_writeBinary safePath pdfBytes
                              (if fst check = Inr True then snd removal else snd check)
           in (fst tempWrite = Inl (External cause)
                 \<and> files w' safePath = files w safePath)
            \<or> (fst tempWrite = Inr () \<and> fst check = Inl (External cause)
                 \<and> files w' safePath = files w safePath)
            \<or> (fst tempWrite = Inr () \<and> fst check = Inr True
                 \<and> fst removal = Inl (External cause)
                 \<and> files w' safePath = files w safePath)
            \<or> (fst tempWrite = Inr () \<and> fst check = Inr True \<and> fst removal = Inr ()
                 \<and> fst finalWrite = Inl (External cause)
                 \<and> files w safePath \<noteq> None \<and> files w' safePath = None)
            \<or> (fst tempWrite = Inr () \<and> fst check = Inr False
                 \<and> fst finalWrite = Inl (External cause)
                 \<and> files w safePath = None \<and> files w' safePath = None))))"
  using run [unfolded saveBlock_def]
proof (cases rule: andThen_Inl)
  case first
  then show ?thesis by (auto dest!: save_cases split: sum.splits)
next
  case (rest pdfBytes w1)
  from rest(1) have w1: "w1 = w" and ser: "serialize (docs w d) = Inr pdfBytes"
    by (auto dest!: save_cases split: sum.splits)
  let ?tw = "adapter_writeBinary tempPath pdfBytes w"
  let ?ck = "adapter_exists safePath (snd ?tw)"
  let ?rm = "adapter_remove safePath (snd ?ck)"
  let ?fw = "adapter_writeBinary safePath pdfBytes (if fst ?ck = Inr True then snd ?rm else snd ?ck)"
  from rest(2) [unfolded w1] show ?thesis
  proof (cases rule: andThen_Inl)
    case first
    from adapter_writeBinary_External [OF first] obtain cause where c: "e = External cause"
      by blast
    from first have "files w' safePath = files w safePath"
      by (auto dest!: adapter_writeBinary_fail)
    with first c ser show ?thesis by (auto simp: Let_def)
  next
    case (rest u1 w2)
    then have tw: "?tw = (Inr (), w2)" by simp
    from rest(1) ne have k2: "files w2 safePath = files w safePath"
      by (auto dest!: adapter_writeBinary_ok)
    from rest(2) show ?thesis
    proof (cases rule: andThen_Inl)
      case first
      from adapter_exists_External [OF first] obtain cause where c: "e = External cause"
        by blast
      from first k2 have "files w' safePath = files w safePath"
        by (auto dest!: adapter_exists_frame)
      with first c ser tw show ?thesis by (auto simp: Let_def)
    next
      case (rest found w3)
      note ck = rest(1)
      from rest(1) k2 have k3: "files w3 safePath = files w safePath"
        by (auto dest!: adapter_exists_frame)
      show ?thesis
      proof (cases found)
        case True
        from rest(2) True have rm_run:
          "andThen (adapter_remove safePath) (\<lambda>_.
             andThen (adapter_writeBinary safePath pdfBytes) (\<lambda>_.
             tryCatch (adapter_remove tempPath) (\<lambda>error. ret ()))) w3 = (Inl e, w')"
          by simp
        from rm_run show ?thesis
        proof (cases rule: andThen_Inl)
          case first
          from adapter_remove_External [OF first] obtain cause where c: "e = External cause"
            by blast
          from first k3 have "files w' safePath = files w safePath"
            by (auto dest!: adapter_remove_fail)
          with first c ser tw ck True show ?thesis by (auto simp: Let_def)
        next
          case (rest u2 w4)
          note rm = rest(1)
          from adapter_remove_present [OF rest(1)] k3 have pres: "files w safePath \<noteq> None"
            by simp
          from rest(1) have k4: "files w4 safePath = None"
            by (auto dest!: adapter_remove_ok)
          from rest(2) show ?thesis
          proof (cases rule: andThen_Inl)
            case first
            from adapter_writeBinary_External [OF first] obtain cause where
              c: "e = External cause" by blast
            from first k4 have "files w' safePath = None"
              by (auto dest!: adapter_writeBinary_fail)
            with first c ser tw ck rm True pres show ?thesis by (auto simp: Let_def)
          next
            case (rest u3 w5)
            from cleanup_frame [OF rest(2)] show ?thesis by simp
          qed
        qed
      next
        case False
        from rest(2) False have fw_run:
          "andThen (adapter_writeBinary safePath pdfBytes) (\<lambda>_.
             tryCatch (adapter_remove tempPath) (\<lambda>error. ret ())) w3 = (Inl e, w')"
          by (simp add: andThen_def ret_def)
        from ck False have absent: "files w safePath = None"
          using adapter_exists_value [of safePath w2 found w3] k2 by auto
        from fw_run show ?thesis
        proof (cases rule: andThen_Inl)
          case first
          from adapter_writeBinary_External [OF first] obtain cause where
            c: "e = External cause" by blast
          from first k3 absent have "files w' safePath = None"
            by (auto dest!: adapter_writeBinary_fail)
          with first c ser tw ck False absent show ?thesis by (auto simp: Let_def)
        next
          case (rest u3 w5)
          from cleanup_frame [OF rest(2)] show ?thesis by simp
        qed
      qed
    qed
  qed
qed

lemma savePDF_unfold:
  "savePDF serialize d outputPath =
     andThen (validateAndCreatePath outputPath) (\<lambda>safePath.
       andThen
         (tryCatch (saveBlock serialize d safePath (safePath @ str ''.temp''))
            (\<lambda>error.
               andThen (tryCatch (adapter_remove (safePath @ str ''.temp'')) (\<lambda>cleanupError. ret ())) (\<lambda>_.
               throw (SaveFailed (message error)))))
         (\<lambda>_.
            tryCatch
              (andThen (adapter_exists safePath) (\<lambda>finalExists.
                 if \<not> finalExists then throw NotSaved else ret ()))
              (\<lambda>error. throw (VerifyFailed (message error)))))"
  by (simp add: savePDF_def saveBlock_def Let_def)

lemma temp_differs: "safePath @ str ''.temp'' \<noteq> safePath"
  by (simp add: str_def)

lemma verify_frame:
  assumes "tryCatch
              (andThen (adapter_exists safePath) (\<lambda>finalExists.
                 if \<not> finalExists then throw NotSaved else ret ()))
              (\<lambda>error. throw (VerifyFailed (message error))) w = (r, w')"
  shows "files w' = files w \<and> docs w' = docs w
    \<and> (r = Inr () \<or> (\<exists>cause. r = Inl (VerifyFailed cause)))"
  using assms
proof (cases rule: tryCatch_cases)
  case (ok x)
  then show ?thesis
    by (elim andThen_Inr) (auto simp: ret_def throw_def split: if_splits dest!: adapter_exists_frame)
next
  case (caught e w1)
  from caught(2) have r: "r = Inl (VerifyFailed (message e))" and w1: "w1 = w'"
    by (auto simp: throw_def)
  from caught(1) have "files w1 = files w \<and> docs w1 = docs w"
    by (elim andThen_Inl)
       (auto simp: ret_def throw_def split: if_splits dest!: adapter_exists_frame)
  with r w1 show ?thesis by simp
qed

lemma save_handler:
  assumes "andThen (tryCatch (adapter_remove tempPath) (\<lambda>cleanupError. ret ())) (\<lambda>_.
             throw (SaveFailed (message error))) w = (r, w')"
  shows "r = Inl (SaveFailed (message error)) \<and> docs w' = docs w
    \<and> (\<forall>q. q \<noteq> tempPath \<longrightarrow> files w' q = files w q)"
proof -
  obtain r1 w1 where c: "tryCatch (adapter_remove tempPath) (\<lambda>cleanupError. ret ()) w = (r1, w1)"
    by (cases "tryCatch (adapter_remove tempPath) (\<lambda>cleanupError. ret ()) w") blast
  from cleanup_frame [OF c] have r1: "r1 = Inr ()"
    and fr: "\<forall>q. q \<noteq> tempPath \<longrightarrow> files w1 q = files w q" and d: "docs w1 = docs w"
    by auto
  from assms c r1 have "r = Inl (SaveFailed (message error))" and "w' = w1"
    by (auto simp: andThen_def throw_def)
  with fr d show ?thesis by simp
qed

section \<open>Facts about \<open>extractPages\<close>\<close>

lemma copyLoop_run:
  assumes "newDoc \<noteq> d"
    and "list_all (\<lambda>i. 0 \<le> i \<and> i < int (length (docs w d))) idxs"
  shows "copyLoop newDoc d idxs w =
    (Inr (), w\<lparr>docs := (docs w)(newDoc := docs w newDoc @ map (\<lambda>i. docs w d ! nat i) idxs)\<rparr>)"
  using assms
proof (induction idxs arbitrary: w)
  case Nil
  show ?case by (simp add: ret_def)
next
  case (Cons i idxs)
  let ?page = "docs w d ! nat i"
  let ?w1 = "w\<lparr>docs := (docs w)(newDoc := docs w newDoc @ [?page])\<rparr>"
  from Cons.prems have cp: "copyPages newDoc d [i] w = (Inr [?page], w)"
    by (simp add: copyPages_def)
  have ap: "addPage newDoc ?page w = (Inr (), ?w1)"
    by (simp add: addPage_def)
  from Cons.prems have same: "docs ?w1 d = docs w d" by simp
  with Cons.prems have "list_all (\<lambda>i. 0 \<le> i \<and> i < int (length (docs ?w1 d))) idxs"
    by simp
  with Cons.IH [of ?w1] Cons.prems(1) have
    "copyLoop newDoc d idxs ?w1 =
       (Inr (), ?w1\<lparr>docs := (docs ?w1)(newDoc := docs ?w1 newDoc @ map (\<lambda>i. docs ?w1 d ! nat i) idxs)\<rparr>)"
    by blast
  with same Cons.prems(1) have run:
    "copyLoop newDoc d idxs ?w1 =
       (Inr (), w\<lparr>docs := (docs w)(newDoc := docs w newDoc @ ?page # map (\<lambda>i. docs w d ! nat i) idxs)\<rparr>)"
    by simp
  have "copyLoop newDoc d (i # idxs) w = copyLoop newDoc d idxs ?w1"
    by (simp add: andThen_def cp ap)
  also note run
  finally show ?case by (simp only: list.map)
qed

lemma map_nth_window:
  assumes "k + n \<le> length xs"
  shows "map (\<lambda>i. xs ! (k + i)) [0 ..< n] = take n (drop k xs)"
  using assms by (intro nth_equalityI) auto

lemma pageIndexes_pages:
  assumes "1 \<le> startNo" and "startNo \<le> endNo" and "endNo \<le> int (length pages)"
  shows "map (\<lambda>i. pages ! nat i)
           (map (\<lambda>i. int i + startNo - 1) [0 ..< nat (endNo - startNo + 1)])
         = take (nat (endNo - startNo + 1)) (drop (nat (startNo - 1)) pages)"
proof -
  have "nat (int i + startNo - 1) = nat (startNo - 1) + i" for i
    using assms(1) by arith
  then have "map (\<lambda>i. pages ! nat i)
           (map (\<lambda>i. int i + startNo - 1) [0 ..< nat (endNo - startNo + 1)])
     = map (\<lambda>i. pages ! (nat (startNo - 1) + i)) [0 ..< nat (endNo - startNo + 1)]"
    by (simp add: comp_def)
  also have "\<dots> = take (nat (endNo - startNo + 1)) (drop (nat (startNo - 1)) pages)"
    using assms by (intro map_nth_window) arith
  finally show ?thesis .
qed

lemma pageIndexes_in_range:
  assumes "1 \<le> startNo" and "endNo \<le> int n"
  shows "list_all (\<lambda>i. 0 \<le> i \<and> i < int n)
           (map (\<lambda>i. int i + startNo - 1) [0 ..< nat (endNo - startNo + 1)])"
  using assms by (auto simp: list_all_iff)

lemma extractPages_in_range:
  assumes "d < nextDoc w"
    and "1 \<le> startNo" and "startNo \<le> endNo" and "endNo \<le> int (getPageCount w d)"
  shows "extractPages d startNo endNo w =
     (Inr (nextDoc w),
      w\<lparr>docs := (docs w)(nextDoc w :=
            take (nat (endNo - startNo + 1)) (drop (nat (startNo - 1)) (docs w d))),
        nextDoc := Suc (nextDoc w)\<rparr>)"
proof -
  let ?idxs = "map (\<lambda>i. int i + startNo - 1) [0 ..< nat (endNo - startNo + 1)]"
  let ?w1 = "w\<lparr>docs := (docs w)(nextDoc w := []), nextDoc := Suc (nextDoc w)\<rparr>"
  from assms(1) have ne: "nextDoc w \<noteq> d" by simp
  then have src: "docs ?w1 d = docs w d" by simp
  have cr: "create w = (Inr (nextDoc w), ?w1)" by (simp add: create_def)
  have "list_all (\<lambda>i. 0 \<le> i \<and> i < int (length (docs ?w1 d))) ?idxs"
    unfolding src using assms(2,4) by (intro pageIndexes_in_range) (simp_all add: getPageCount_def)
  from copyLoop_run [OF ne this] have run:
    "copyLoop (nextDoc w) d ?idxs ?w1 =
       (Inr (), ?w1\<lparr>docs := (docs ?w1)(nextDoc w := docs ?w1 (nextDoc w) @ map (\<lambda>i. docs ?w1 d ! nat i) ?idxs)\<rparr>)" .
  let ?pages = "take (nat (endNo - startNo + 1)) (drop (nat (startNo - 1)) (docs w d))"
  have e1: "docs ?w1 (nextDoc w) = []" by simp
  have e2: "map (\<lambda>i. docs w d ! nat i) ?idxs = ?pages"
    using assms(2-4) by (intro pageIndexes_pages) (simp_all add: getPageCount_def)
  have e3: "?w1\<lparr>docs := (docs ?w1)(nextDoc w := ?pages)\<rparr>
      = w\<lparr>docs := (docs w)(nextDoc w := ?pages), nextDoc := Suc (nextDoc w)\<rparr>"
    by simp
  from run have loop: "copyLoop (nextDoc w) d ?idxs ?w1 =
       (Inr (), w\<lparr>docs := (docs w)(nextDoc w := ?pages), nextDoc := Suc (nextDoc w)\<rparr>)"
    by (simp only: src e1 e2 e3 append_Nil)
  have "extractPages d startNo endNo w = andThen (copyLoop (nextDoc w) d ?idxs) (\<lambda>_. ret (nextDoc w)) ?w1"
    by (simp add: extractPages_def andThen_def cr Let_def)
  also have "\<dots> = (Inr (nextDoc w), w\<lparr>docs := (docs w)(nextDoc w := ?pages), nextDoc := Suc (nextDoc w)\<rparr>)"
    by (simp only: andThen_def loop prod.case sum.case ret_def)
  finally show ?thesis .
qed

section \<open>Facts about error propagation\<close>

lemma propagated_Inr_iff:
  "propagated plan (Inr x) rest \<longleftrightarrow>
     (\<exists>n. rest = drop n plan \<and> list_all (\<lambda>x. x = None) (take n plan))"
proof
  assume "propagated plan (Inr x) rest"
  then show "\<exists>n. rest = drop n plan \<and> list_all (\<lambda>x. x = None) (take n plan)"
    unfolding propagated_def by auto
next
  assume "\<exists>n. rest = drop n plan \<and> list_all (\<lambda>x. x = None) (take n plan)"
  then obtain n where r: "rest = drop n plan" and a: "list_all (\<lambda>x. x = None) (take n plan)"
    by blast
  have len: "length plan - length rest = min n (length plan)" using r by auto
  have "drop (min n (length plan)) plan = drop n plan"
    by (cases "n \<le> length plan") (simp_all add: min_def)
  moreover have "take (min n (length plan)) plan = take n plan"
    by (cases "n \<le> length plan") (simp_all add: min_def)
  ultimately show "propagated plan (Inr x) rest"
    unfolding propagated_def using r a len by simp
qed

lemma propagated_refl: "propagated plan (Inr x) plan"
  unfolding propagated_Inr_iff by (intro exI [of _ 0]) simp

lemma propagated_trans:
  assumes 1: "propagated plan (Inr x) mid" and 2: "propagated mid r rest"
  shows "propagated plan r rest"
proof -
  from 1 obtain n where mid: "mid = drop n plan"
    and none: "list_all (\<lambda>x. x = None) (take n plan)"
    unfolding propagated_Inr_iff by blast
  have plan: "plan = take n plan @ mid" using mid by simp
  show ?thesis
  proof (cases r)
    case (Inr y)
    from 2 [unfolded Inr propagated_Inr_iff] obtain k where rest: "rest = drop k mid"
      and none2: "list_all (\<lambda>x. x = None) (take k mid)"
      by blast
    have "rest = drop (n + k) plan" using rest mid by (simp add: add.commute)
    moreover have "take (n + k) plan = take n plan @ take k mid"
      using mid by (simp add: take_add)
    then have "list_all (\<lambda>x. x = None) (take (n + k) plan)"
      using none none2 by simp
    ultimately show ?thesis unfolding Inr propagated_Inr_iff by blast
  next
    case (Inl e)
    have "dropWhile (\<lambda>x. x = None) (take n plan @ mid) = dropWhile (\<lambda>x. x = None) mid"
      using none by (intro dropWhile_append2) (simp add: list_all_iff)
    with plan have "dropWhile (\<lambda>x. x = None) plan = dropWhile (\<lambda>x. x = None) mid"
      by simp
    with 2 show ?thesis unfolding Inl propagated_def by simp
  qed
qed

lemma adapterCall_propagated:
  assumes run: "adapterCall act w = (r, w')"
    and act: "\<And>v r1 v1. act v = (r1, v1) \<Longrightarrow> faults v1 = faults v \<and> (\<exists>x. r1 = Inr x)"
  shows "propagated (faults w) r (faults w')"
proof (cases "faults w")
  case Nil
  with run have "act (w\<lparr>faults := []\<rparr>) = (r, w')" by (simp add: adapterCall_def)
  from act [OF this] obtain x where "faults w' = []" and "r = Inr x" by auto
  with Nil show ?thesis by (simp add: propagated_def)
next
  case (Cons entry plan)
  show ?thesis
  proof (cases entry)
    case None
    with Cons run have "act (w\<lparr>faults := plan\<rparr>) = (r, w')" by (simp add: adapterCall_def)
    from act [OF this] obtain x where "faults w' = plan" and "r = Inr x" by auto
    with Cons None show ?thesis by (simp add: propagated_def)
  next
    case (Some m)
    with Cons run have "r = Inl (External m)" and "faults w' = plan"
      by (auto simp: adapterCall_def)
    with Cons Some show ?thesis by (simp add: propagated_def)
  qed
qed

lemma adapter_exists_propagated:
  assumes "adapter_exists p w = (r, w')"
  shows "propagated (faults w) r (faults w')"
  using assms unfolding adapter_exists_def by (rule adapterCall_propagated) auto

lemma adapter_mkdir_propagated:
  assumes "adapter_mkdir p w = (r, w')"
  shows "propagated (faults w) r (faults w')"
  using assms unfolding adapter_mkdir_def by (rule adapterCall_propagated) auto

lemma andThen_propagated:
  assumes run: "andThen m k w = (r, w')"
    and first: "\<And>r1 w1. m w = (r1, w1) \<Longrightarrow> propagated (faults w) r1 (faults w1)"
    and rest: "\<And>x w1. m w = (Inr x, w1) \<Longrightarrow> k x w1 = (r, w') \<Longrightarrow> propagated (faults w1) r (faults w')"
  shows "propagated (faults w) r (faults w')"
proof (cases "m w")
  case (Pair r1 w1)
  show ?thesis
  proof (cases r1)
    case (Inl e)
    with Pair run have "r = Inl e" and "w' = w1" by (auto simp: andThen_def)
    with first [OF Pair] Inl show ?thesis by (simp add: propagated_def)
  next
    case (Inr x)
    with Pair run have k: "k x w1 = (r, w')" by (simp add: andThen_def)
    from first [OF Pair] Inr have "propagated (faults w) (Inr x) (faults w1)" by simp
    moreover from rest [OF Pair [unfolded Inr] k] have "propagated (faults w1) r (faults w')" .
    ultimately show ?thesis by (rule propagated_trans)
  qed
qed

lemma ensureLoop_propagated:
  "ensureLoop currentPath parts w = (r, w') \<Longrightarrow> propagated (faults w) r (faults w')"
proof (induction parts arbitrary: currentPath w)
  case Nil
  then show ?case by (auto simp: ret_def propagated_refl)
next
  case (Cons part parts)
  let ?cur = "if currentPath \<noteq> [] then currentPath @ slash # part else part"
  from Cons.prems have run:
    "andThen (adapter_exists ?cur) (\<lambda>found.
       andThen (if \<not> found then adapter_mkdir ?cur else ret ()) (\<lambda>_.
       ensureLoop ?cur parts)) w = (r, w')"
    by (simp add: Let_def)
  show ?case
  proof (rule andThen_propagated [OF run])
    fix r1 w1 assume "adapter_exists ?cur w = (r1, w1)"
    then show "propagated (faults w) r1 (faults w1)" by (rule adapter_exists_propagated)
  next
    fix found w1
    assume "andThen (if \<not> found then adapter_mkdir ?cur else ret ()) (\<lambda>_.
       ensureLoop ?cur parts) w1 = (r, w')"
    then show "propagated (faults w1) r (faults w')"
    proof (rule andThen_propagated)
      fix r2 w2 assume "(if \<not> found then adapter_mkdir ?cur else ret ()) w1 = (r2, w2)"
      then show "propagated (faults w1) r2 (faults w2)"
        by (cases found) (auto simp: ret_def propagated_refl dest: adapter_mkdir_propagated)
    next
      fix u w2 assume "ensureLoop ?cur parts w2 = (r, w')"
      then show "propagated (faults w2) r (faults w')" by (rule Cons.IH)
    qed
  qed
qed

section \<open>Facts about the gates\<close>

lemma isPathInVault_traversal:
  assumes "path = a @ str ''../'' @ b \<or> path = a @ (str ''..'' @ [backslash]) @ b"
  shows "\<not> isPathInVault path"
proof -
  from assms have "includes_sub path (str ''../'') \<or> includes_sub path (str ''..'' @ [backslash])"
    unfolding includes_sub_iff by blast
  then show ?thesis by (simp add: isPathInVault_def)
qed

lemma invalid_path_throws:
  assumes "\<not> isPathInVault path"
  shows "validateAndCreatePath path w = (Inl InvalidPath, w)"
    and "savePDF serialize d path w = (Inl InvalidPath, w)"
    and "ensureSafeOutput user path w = (Inl InvalidPath, w)"
  using assms
  by (simp_all add: validateAndCreatePath_def savePDF_def ensureSafeOutput_def throw_def andThen_def)

lemma validateAndCreatePath_nofault:
  assumes "faults w = []" and "isPathInVault p"
  shows "validateAndCreatePath p w =
     (Inr (safePathOf p),
      w\<lparr>folders :=
          (let directory = join slash (butlast (split slash p))
           in if directory \<noteq> [] \<and> files w directory = None then insert directory (folders w)
              else folders w)\<rparr>)"
proof -
  let ?dir = "join slash (butlast (split slash p))"
  have w: "w\<lparr>faults := []\<rparr> = w" using assms(1) by simp
  have ex: "adapter_exists ?dir w = (Inr (files w ?dir \<noteq> None \<or> ?dir \<in> folders w), w)"
    using assms(1) w by (simp add: adapter_exists_def adapterCall_def)
  have mk: "adapter_mkdir ?dir w = (Inr (), w\<lparr>folders := insert ?dir (folders w)\<rparr>)"
    using assms(1) w by (simp add: adapter_mkdir_def adapterCall_def)
  have same: "?dir \<in> folders w \<Longrightarrow> w\<lparr>folders := insert ?dir (folders w)\<rparr> = w"
    by (simp add: insert_absorb)
  show ?thesis
    using assms(2) ex mk same
    by (auto simp: validateAndCreatePath_def safePathOf_def Let_def andThen_def tryCatch_def
        ret_def insert_absorb)
qed

lemma safePathOf_not_directory:
  assumes "join slash (butlast (split slash p)) \<noteq> []"
  shows "safePathOf p \<noteq> join slash (butlast (split slash p))"
  using assms by (simp add: safePathOf_def Let_def)

lemma validateInput_range:
  assumes "pdfPath m \<noteq> []" and "doc m = Some d"
    and "startPage m > endPage m \<or> endPage m > int (getPageCount w d) \<or> startPage m < 1"
  shows "validateInput m w =
     Some (if startPage m = 0 \<or> endPage m = 0 \<or> startPage m > endPage m then InvalidNumbers
           else OutOfBounds (getPageCount w d))"
  using assms by (auto simp: validateInput_def)

lemma splitPDF_rejects:
  assumes "validateInput m w = Some v"
  shows "splitPDF serialize toLowerCase m w = (m, w\<lparr>notices := notices w @ [ValidationNotice v]\<rparr>)"
  using assms by (simp add: splitPDF_def)

section \<open>The claims\<close>

text \<open>
  C10. A file name whose only dot is its first character is returned unchanged by
  \<open>sanitizePath\<close>: the base name is empty, the whole name is the extension, and the
  characters \<open>sanitizeString\<close> would replace stay as they are.
\<close>

theorem sanitizePath_dotfile:
  assumes "dot \<notin> set rest"
  shows "baseName (dot # rest) = [] \<and> extension (dot # rest) = dot # rest
    \<and> sanitizePath (dot # rest) = dot # rest"
proof -
  from assms have "lastIndexOf ([] @ dot # rest) dot = int (length ([] :: jsstring))"
    by (rule lastIndexOf_split)
  then have "baseName (dot # rest) = []" and "extension (dot # rest) = dot # rest"
    by (simp_all add: baseName_def extension_def)
  with dotfile_unchanged [OF assms] show ?thesis by simp
qed

theorem sanitizePath_dotfile_witness:
  "dot \<notin> set (str ''My:Notes*'') \<and> isInvalidChar colon
    \<and> sanitizePath (str ''.My:Notes*'') = str ''.My:Notes*''"
proof -
  have h: "dot \<notin> set (str ''My:Notes*'')" by code_simp
  have e: "str ''.My:Notes*'' = dot # str ''My:Notes*''" by code_simp
  have c: "isInvalidChar colon" by code_simp
  from sanitizePath_dotfile [OF h] h c show ?thesis unfolding e by simp
qed

text \<open>
  C9. For a file name that contains a dot, \<open>sanitizePath\<close> sanitizes the part before
  the last dot and appends the part from the last dot on as it is; the extension of
  the result, read off in the same way, is the extension of the input.
\<close>

theorem sanitizePath_extension:
  assumes "dot \<in> set filename"
  shows "sanitizePath filename = sanitizeString (baseName filename) @ extension filename
    \<and> extension (sanitizePath filename) = extension filename
    \<and> hd (extension filename) = dot"
proof -
  from assms obtain a b where x: "filename = a @ dot # b" and b: "dot \<notin> set b"
    using split_list_last [of dot filename] by blast
  from b have i: "lastIndexOf (a @ dot # b) dot = int (length a)"
    by (rule lastIndexOf_split)
  then have base: "baseName filename = a" and ext: "extension filename = dot # b"
    unfolding x by (simp_all add: baseName_def extension_def)
  from b have res: "sanitizePath filename = sanitizeString a @ dot # b"
    unfolding x by (rule sanitizePath_split)
  from b have "lastIndexOf (sanitizeString a @ dot # b) dot = int (length (sanitizeString a))"
    by (rule lastIndexOf_split)
  then have "extension (sanitizeString a @ dot # b) = dot # b"
    by (simp add: extension_def)
  with base ext res show ?thesis by simp
qed

theorem sanitizePath_extension_witness:
  "dot \<in> set (str ''My:Notes*.pdf'')
    \<and> sanitizePath (str ''My:Notes*.pdf'') = str ''My-Notes-.pdf''
    \<and> extension (sanitizePath (str ''My:Notes*.pdf'')) = str ''.pdf''
    \<and> extension (str ''My:Notes*.pdf'') = str ''.pdf''"
proof -
  have h: "dot \<in> set (str ''My:Notes*.pdf'')" by code_simp
  have e: "extension (str ''My:Notes*.pdf'') = str ''.pdf''" by code_simp
  have b: "sanitizeString (baseName (str ''My:Notes*.pdf'')) @ str ''.pdf'' = str ''My-Notes-.pdf''"
    by code_simp
  from sanitizePath_extension [OF h] have
    1: "sanitizePath (str ''My:Notes*.pdf'')
          = sanitizeString (baseName (str ''My:Notes*.pdf'')) @ extension (str ''My:Notes*.pdf'')"
    and 2: "extension (sanitizePath (str ''My:Notes*.pdf'')) = extension (str ''My:Notes*.pdf'')"
    by blast+
  from 1 have "sanitizePath (str ''My:Notes*.pdf'') = str ''My-Notes-.pdf''"
    by (simp only: e b)
  moreover from 2 have "extension (sanitizePath (str ''My:Notes*.pdf'')) = str ''.pdf''"
    by (simp only: e)
  ultimately show ?thesis using h e by blast
qed

text \<open>
  C8. \<open>sanitizePath\<close> is idempotent on every string.
\<close>

theorem sanitizePath_idempotent: "sanitizePath (sanitizePath x) = sanitizePath x"
proof (cases "dot \<in> set x")
  case True
  then obtain a b where x: "x = a @ dot # b" and b: "dot \<notin> set b"
    using split_list_last [of dot x] by blast
  from b have "sanitizePath x = sanitizeString a @ dot # b"
    unfolding x by (rule sanitizePath_split)
  moreover from b have "sanitizePath (sanitizeString a @ dot # b)
      = sanitizeString (sanitizeString a) @ dot # b"
    by (rule sanitizePath_split)
  ultimately show ?thesis by (simp add: sanitizeString_idem)
next
  case False
  then have 1: "sanitizePath x = sanitizeString x" by (rule sanitizePath_nodot)
  from False have "dot \<notin> set (sanitizeString x)" by (rule sanitizeString_nodot)
  then have "sanitizePath (sanitizeString x) = sanitizeString (sanitizeString x)"
    by (rule sanitizePath_nodot)
  with 1 show ?thesis by (simp add: sanitizeString_idem)
qed

theorem sanitizePath_idempotent_witness:
  "sanitizePath (str ''  a::b  .pdf'') = str ''a-b.pdf''
    \<and> sanitizePath (str ''a-b.pdf'') = str ''a-b.pdf''"
proof -
  have v: "sanitizePath (str ''  a::b  .pdf'') = str ''a-b.pdf''" by code_simp
  from sanitizePath_idempotent [of "str ''  a::b  .pdf''"] v show ?thesis by simp
qed

text \<open>
  C3. A path that contains \<^verbatim>\<open>../\<close> or two dots and a backslash anywhere is rejected by
  \<open>isPathInVault\<close>; \<open>validateAndCreatePath\<close>, \<open>savePDF\<close> and \<open>ensureSafeOutput\<close> then
  throw the invalid-path error before any adapter call, so the vault and everything
  else is as it was.
\<close>

theorem traversal_rejected:
  assumes "path = a @ str ''../'' @ b \<or> path = a @ (str ''..'' @ [backslash]) @ b"
  shows "\<not> isPathInVault path
    \<and> validateAndCreatePath path w = (Inl InvalidPath, w)
    \<and> savePDF serialize d path w = (Inl InvalidPath, w)
    \<and> ensureSafeOutput user path w = (Inl InvalidPath, w)"
  using isPathInVault_traversal [OF assms] by (simp add: invalid_path_throws)

theorem traversal_rejected_witness:
  "str ''../../etc/passwd'' = [] @ str ''../'' @ str ''../etc/passwd''
    \<and> \<not> isPathInVault (str ''../../etc/passwd'')
    \<and> savePDF pageCodec 0 (str ''../../etc/passwd'') (scenario []) = (Inl InvalidPath, scenario [])"
proof -
  have h: "str ''../../etc/passwd'' = [] @ str ''../'' @ str ''../etc/passwd''"
    by (simp add: str_def)
  from traversal_rejected [OF disjI1 [OF h]] h show ?thesis by blast
qed

text \<open>
  C2. When \<open>savePDF\<close> returns, the path was accepted by \<open>isPathInVault\<close>, the codec
  returned a buffer for the document, and the file at the path
  \<open>validateAndCreatePath\<close> produced holds exactly that buffer: reading it back through
  the adapter gives the same bytes.
\<close>

theorem savePDF_success_roundtrip:
  assumes "savePDF serialize d outputPath w = (Inr u, w')"
  shows "isPathInVault outputPath \<and>
    (\<exists>pdfBytes. serialize (docs w d) = Inr pdfBytes
       \<and> files w' (safePathOf outputPath) = Some pdfBytes
       \<and> fst (adapter_readBinary (safePathOf outputPath) (w'\<lparr>faults := []\<rparr>)) = Inr pdfBytes)"
  using assms [unfolded savePDF_unfold]
proof (cases rule: andThen_Inr)
  case (1 safePath w1)
  from validateAndCreatePath_Inr [OF 1(1)] have sp: "safePath = safePathOf outputPath"
    and ok: "isPathInVault outputPath" and d1: "docs w1 = docs w" by auto
  let ?temp = "safePath @ str ''.temp''"
  from 1(2) show ?thesis
  proof (cases rule: andThen_Inr)
    case (1 u1 w2)
    from 1(1) have blk: "saveBlock serialize d safePath ?temp w1 = (Inr u1, w2)"
    proof (cases rule: tryCatch_cases)
      case (ok x)
      then show ?thesis by simp
    next
      case (caught e1 w3)
      from save_handler [OF caught(2)] show ?thesis by simp
    qed
    from saveBlock_ok [OF blk temp_differs] d1 obtain pdfBytes where
      ser: "serialize (docs w d) = Inr pdfBytes" and f2: "files w2 safePath = Some pdfBytes"
      by auto
    from verify_frame [OF 1(2)] have "files w' = files w2" by simp
    with f2 sp have f: "files w' (safePathOf outputPath) = Some pdfBytes" by simp
    then have "fst (adapter_readBinary (safePathOf outputPath) (w'\<lparr>faults := []\<rparr>)) = Inr pdfBytes"
      by (simp add: adapter_readBinary_def adapterCall_def)
    with ok ser f show ?thesis by blast
  qed
qed

theorem savePDF_success_roundtrip_witness:
  "fst (savePDF pageCodec 0 (str ''reports/My  Notes.pdf'') (scenario [])) = Inr ()
    \<and> safePathOf (str ''reports/My  Notes.pdf'') = str ''reports/My Notes.pdf''
    \<and> files (snd (savePDF pageCodec 0 (str ''reports/My  Notes.pdf'') (scenario [])))
         (str ''reports/My Notes.pdf'') = Some [10, 20, 30]"
proof -
  let ?run = "savePDF pageCodec 0 (str ''reports/My  Notes.pdf'') (scenario [])"
  have r: "fst ?run = Inr ()" by code_simp
  then have run: "?run = (Inr (), snd ?run)" by (metis prod.collapse)
  have p: "safePathOf (str ''reports/My  Notes.pdf'') = str ''reports/My Notes.pdf''"
    by code_simp
  have c: "pageCodec (docs (scenario []) 0) = Inr [10, 20, 30]" by code_simp
  from savePDF_success_roundtrip [OF run] obtain pdfBytes where
    "pageCodec (docs (scenario []) 0) = Inr pdfBytes"
    and "files (snd ?run) (safePathOf (str ''reports/My  Notes.pdf'')) = Some pdfBytes"
    by blast
  with c p have "files (snd ?run) (str ''reports/My Notes.pdf'') = Some [10, 20, 30]"
    by simp
  with r p show ?thesis by blast
qed

text \<open>
  C1, as the code has it. When \<open>savePDF\<close> throws, one of four things holds. The path
  was rejected and nothing changed. Or the directory could not be provided and no file
  changed. Or the \<^verbatim>\<open>try\<close> block failed, and the step that failed decides: when it is
  the serialization, the write of the temporary file, the existence check or the
  removal, the file at the final path is as it was before the call; when it is the
  final write, the final path is absent, because a file that existed was removed before
  that write and is not put back. Or only the check after the write failed: then the
  final path holds the complete buffer. The steps are the adapter calls of the source,
  each run on the state the one before it left; the thrown message is the message of
  the step that failed.
\<close>

theorem savePDF_failure_final_path:
  assumes "savePDF serialize d outputPath w = (Inl e, w')"
  shows "(e = InvalidPath \<and> w' = w)
    \<or> ((\<exists>cause. e = CreateDirectoryFailed cause) \<and> files w' = files w)
    \<or> (\<exists>cause. e = SaveFailed cause \<and>
         ((serialize (docs w d) = Inl cause
             \<and> files w' (safePathOf outputPath) = files w (safePathOf outputPath))
          \<or> (\<exists>pdfBytes. serialize (docs w d) = Inr pdfBytes \<and>
               (let safePath = safePathOf outputPath;
                    tempPath = safePath @ str ''.temp'';
                    tempWrite = adapter_writeBinary tempPath pdfBytes
                                  (snd (validateAndCreatePath outputPath w));
                    check = adapter_exists safePath (snd tempWrite);
                    removal = adapter_remove safePath (snd check);
                    finalWrite = adapter_writeBinary safePath pdfBytes
                                   (if fst check = Inr True then snd removal else snd check)
                in (fst tempWrite = Inl (External cause)
                      \<and> files w' safePath = files w safePath)
                 \<or> (fst tempWrite = Inr () \<and> fst check = Inl (External cause)
                      \<and> files w' safePath = files w safePath)
                 \<or> (fst tempWrite = Inr () \<and> fst check = Inr True
                      \<and> fst removal = Inl (External cause)
                      \<and> files w' safePath = files w safePath)
                 \<or> (fst tempWrite = Inr () \<and> fst check = Inr True \<and> fst removal = Inr ()
                      \<and> fst finalWrite = Inl (External cause)
                      \<and> files w safePath \<noteq> None \<and> files w' safePath = None)
                 \<or> (fst tempWrite = Inr () \<and> fst check = Inr False
                      \<and> fst finalWrite = Inl (External cause)
                      \<and> files w safePath = None \<and> files w' safePath = None)))))
    \<or> ((\<exists>cause. e = VerifyFailed cause)
        \<and> (\<exists>pdfBytes. serialize (docs w d) = Inr pdfBytes
              \<and> files w' (safePathOf outputPath) = Some pdfBytes))"
  using assms [unfolded savePDF_unfold]
proof (cases rule: andThen_Inl)
  case first
  from validateAndCreatePath_Inl [OF first] show ?thesis
  proof
    assume "e = InvalidPath \<and> w' = w \<and> \<not> isPathInVault outputPath"
    then show ?thesis by simp
  next
    assume a: "(\<exists>cause. e = CreateDirectoryFailed cause) \<and> isPathInVault outputPath
      \<and> w' = w\<lparr>faults := faults w'\<rparr>"
    then have "files w' = files (w\<lparr>faults := faults w'\<rparr>)" by simp
    then have "files w' = files w" by simp
    with a show ?thesis by blast
  qed
next
  case (rest safePath w1)
  from validateAndCreatePath_Inr [OF rest(1)] have sp: "safePath = safePathOf outputPath"
    and f1: "files w1 = files w" and d1: "docs w1 = docs w" by auto
  from rest(1) have s1: "snd (validateAndCreatePath outputPath w) = w1" by simp
  let ?temp = "safePath @ str ''.temp''"
  from rest(2) show ?thesis
  proof (cases rule: andThen_Inl)
    case first
    then show ?thesis
    proof (cases rule: tryCatch_cases)
      case (ok x)
      then show ?thesis by simp
    next
      case (caught e1 w2)
      from saveBlock_fail_by_step [OF caught(1) temp_differs] obtain cause where
        e1: "e1 = External cause" and
        steps: "(serialize (docs w1 d) = Inl cause \<and> files w2 safePath = files w1 safePath)
     \<or> (\<exists>pdfBytes. serialize (docs w1 d) = Inr pdfBytes \<and>
          (let tempWrite = adapter_writeBinary ?temp pdfBytes w1;
               check = adapter_exists safePath (snd tempWrite);
               removal = adapter_remove safePath (snd check);
               finalWrite = adapter_writeBinary safePath pdfBytes
                              (if fst check = Inr True then snd removal else snd check)
           in (fst tempWrite = Inl (External cause)
                 \<and> files w2 safePath = files w1 safePath)
            \<or> (fst tempWrite = Inr () \<and> fst check = Inl (External cause)
                 \<and> files w2 safePath = files w1 safePath)
            \<or> (fst tempWrite = Inr () \<and> fst check = Inr True
                 \<and> fst removal = Inl (External cause)
                 \<and> files w2 safePath = files w1 safePath)
            \<or> (fst tempWrite = Inr () \<and> fst check = Inr True \<and> fst removal = Inr ()
                 \<and> fst finalWrite = Inl (External cause)
                 \<and> files w1 safePath \<noteq> None \<and> files w2 safePath = None)
            \<or> (fst tempWrite = Inr () \<and> fst check = Inr False
                 \<and> fst finalWrite = Inl (External cause)
                 \<and> files w1 safePath = None \<and> files w2 safePath = None)))"
        by blast
      from save_handler [OF caught(2)] temp_differs [of safePath]
      have e: "e = SaveFailed (message e1)" and same: "files w' safePath = files w2 safePath"
        by auto
      from e e1 have ec: "e = SaveFailed cause" by simp
      from steps have "(serialize (docs w d) = Inl cause
             \<and> files w' (safePathOf outputPath) = files w (safePathOf outputPath))
          \<or> (\<exists>pdfBytes. serialize (docs w d) = Inr pdfBytes \<and>
               (let safePath = safePathOf outputPath;
                    tempPath = safePath @ str ''.temp'';
                    tempWrite = adapter_writeBinary tempPath pdfBytes
                                  (snd (validateAndCreatePath outputPath w));
                    check = adapter_exists safePath (snd tempWrite);
                    removal = adapter_remove safePath (snd check);
                    finalWrite = adapter_writeBinary safePath pdfBytes
                                   (if fst check = Inr True then snd removal else snd check)
                in (fst tempWrite = Inl (External cause)
                      \<and> files w' safePath = files w safePath)
                 \<or> (fst tempWrite = Inr () \<and> fst check = Inl (External cause)
                      \<and> files w' safePath = files w safePath)
                 \<or> (fst tempWrite = Inr () \<and> fst check = Inr True
                      \<and> fst removal = Inl (External cause)
                      \<and> files w' safePath = files w safePath)
                 \<or> (fst tempWrite = Inr () \<and> fst check = Inr True \<and> fst removal = Inr ()
                      \<and> fst finalWrite = Inl (External cause)
                      \<and> files w safePath \<noteq> None \<and> files w' safePath = None)
                 \<or> (fst tempWrite = Inr () \<and> fst check = Inr False
                      \<and> fst finalWrite = Inl (External cause)
                      \<and> files w safePath = None \<and> files w' safePath = None)))"
        unfolding s1 sp [symmetric] same f1 d1 Let_def .
      with ec show ?thesis by blast
    qed
  next
    case (rest u w2)
    from rest(1) have blk: "saveBlock serialize d safePath ?temp w1 = (Inr u, w2)"
    proof (cases rule: tryCatch_cases)
      case (ok x)
      then show ?thesis by simp
    next
      case (caught e1 w3)
      from save_handler [OF caught(2)] show ?thesis by simp
    qed
    from saveBlock_ok [OF blk temp_differs] d1 obtain pdfBytes where
      ser: "serialize (docs w d) = Inr pdfBytes" and f2: "files w2 safePath = Some pdfBytes"
      by auto
    from verify_frame [OF rest(2)] have "files w' = files w2" and "\<exists>cause. e = VerifyFailed cause"
      by auto
    with ser f2 sp show ?thesis by auto
  qed
qed

text \<open>
  The disk is full at the write of the temporary file: that step fails, and
  \<^verbatim>\<open>out.pdf\<close> is as it was.
\<close>

theorem savePDF_failure_final_path_witness:
  "fst (savePDF pageCodec 0 (str ''out.pdf'') (scenario [Some ''ENOSPC: no space left on device'']))
     = Inl (SaveFailed ''ENOSPC: no space left on device'')
    \<and> safePathOf (str ''out.pdf'') = str ''out.pdf''
    \<and> files (scenario [Some ''ENOSPC: no space left on device'']) (str ''out.pdf'') = Some [1, 2, 3]
    \<and> fst (adapter_writeBinary (str ''out.pdf'' @ str ''.temp'') [10, 20, 30]
              (snd (validateAndCreatePath (str ''out.pdf'')
                      (scenario [Some ''ENOSPC: no space left on device'']))))
         = Inl (External ''ENOSPC: no space left on device'')
    \<and> files (snd (savePDF pageCodec 0 (str ''out.pdf'')
                    (scenario [Some ''ENOSPC: no space left on device'']))) (str ''out.pdf'')
         = Some [1, 2, 3]"
proof -
  let ?w = "scenario [Some ''ENOSPC: no space left on device'']"
  let ?run = "savePDF pageCodec 0 (str ''out.pdf'') ?w"
  have r: "fst ?run = Inl (SaveFailed ''ENOSPC: no space left on device'')" by code_simp
  then have run: "?run = (Inl (SaveFailed ''ENOSPC: no space left on device''), snd ?run)"
    by (metis prod.collapse)
  have p: "safePathOf (str ''out.pdf'') = str ''out.pdf''" by code_simp
  have b: "files ?w (str ''out.pdf'') = Some [1, 2, 3]" by code_simp
  have c: "pageCodec (docs ?w 0) = Inr [10, 20, 30]" by code_simp
  have t: "fst (adapter_writeBinary (str ''out.pdf'' @ str ''.temp'') [10, 20, 30]
              (snd (validateAndCreatePath (str ''out.pdf'') ?w)))
         = Inl (External ''ENOSPC: no space left on device'')" by code_simp
  from savePDF_failure_final_path [OF run] c t b
  have "files (snd ?run) (str ''out.pdf'') = Some [1, 2, 3]"
    unfolding p Let_def by auto
  with r p b t show ?thesis by blast
qed

text \<open>
  C1 as stated fails: \<^verbatim>\<open>out.pdf\<close> exists with three bytes, the temporary file is
  written, the existing file is removed, and the disk is full at the final write.
  \<open>savePDF\<close> reports the failure and \<^verbatim>\<open>out.pdf\<close> is gone.
\<close>

theorem savePDF_failure_removes_existing:
  "fst (savePDF pageCodec 0 (str ''out.pdf'')
          (scenario [None, None, None, Some ''ENOSPC: no space left on device'']))
     = Inl (SaveFailed ''ENOSPC: no space left on device'')
    \<and> safePathOf (str ''out.pdf'') = str ''out.pdf''
    \<and> files (scenario [None, None, None, Some ''ENOSPC: no space left on device''])
         (str ''out.pdf'') = Some [1, 2, 3]
    \<and> files (snd (savePDF pageCodec 0 (str ''out.pdf'')
                    (scenario [None, None, None, Some ''ENOSPC: no space left on device''])))
         (str ''out.pdf'') = None"
  by code_simp

text \<open>
  C4. For a loaded document \<open>d\<close> of \<open>N\<close> pages and \<open>1 \<le> start \<le> end \<le> N\<close>,
  \<open>extractPages\<close> returns a new document, different from \<open>d\<close>, whose pages are the pages
  \<open>start\<close> to \<open>end\<close> of \<open>d\<close> in their order, \<open>end - start + 1\<close> of them; the pages of \<open>d\<close>
  and of every other document, and the vault, are as before.
\<close>

theorem extractPages_copies_range:
  assumes "d < nextDoc w"
    and "1 \<le> startNo" and "startNo \<le> endNo" and "endNo \<le> int (getPageCount w d)"
  shows "\<exists>copied w'.
      copied = take (nat (endNo - startNo + 1)) (drop (nat (startNo - 1)) (docs w d))
    \<and> extractPages d startNo endNo w = (Inr (nextDoc w), w')
    \<and> w' = w\<lparr>docs := (docs w)(nextDoc w := copied), nextDoc := Suc (nextDoc w)\<rparr>
    \<and> nextDoc w \<noteq> d
    \<and> docs w' (nextDoc w) = copied
    \<and> int (getPageCount w' (nextDoc w)) = endNo - startNo + 1
    \<and> (\<forall>k < length copied. copied ! k = docs w d ! (nat (startNo - 1) + k))
    \<and> docs w' d = docs w d"
proof -
  let ?copied = "take (nat (endNo - startNo + 1)) (drop (nat (startNo - 1)) (docs w d))"
  let ?w' = "w\<lparr>docs := (docs w)(nextDoc w := ?copied), nextDoc := Suc (nextDoc w)\<rparr>"
  have run: "extractPages d startNo endNo w = (Inr (nextDoc w), ?w')"
    using assms by (rule extractPages_in_range)
  from assms(1) have ne: "nextDoc w \<noteq> d" by simp
  have len: "int (length ?copied) = endNo - startNo + 1"
    using assms(2-4) by (simp add: getPageCount_def)
  have nth: "\<forall>k < length ?copied. ?copied ! k = docs w d ! (nat (startNo - 1) + k)"
    by (auto simp: nth_drop)
  from ne have src: "docs ?w' d = docs w d" by simp
  have new: "docs ?w' (nextDoc w) = ?copied" by simp
  from run ne len nth src new show ?thesis
    by (intro exI [of _ ?copied] exI [of _ ?w']) (simp only: getPageCount_def simp_thms)
qed

text \<open>Ten pages, pages 3 to 5: the new document has the pages 3, 4 and 5.\<close>

theorem extractPages_copies_range_witness:
  "0 < nextDoc (library [1, 2, 3, 4, 5, 6, 7, 8, 9, 10])
    \<and> getPageCount (library [1, 2, 3, 4, 5, 6, 7, 8, 9, 10]) 0 = 10
    \<and> fst (extractPages 0 3 5 (library [1, 2, 3, 4, 5, 6, 7, 8, 9, 10])) = Inr 1
    \<and> docs (snd (extractPages 0 3 5 (library [1, 2, 3, 4, 5, 6, 7, 8, 9, 10]))) 1 = [3, 4, 5]
    \<and> docs (snd (extractPages 0 3 5 (library [1, 2, 3, 4, 5, 6, 7, 8, 9, 10]))) 0
        = [1, 2, 3, 4, 5, 6, 7, 8, 9, 10]"
proof -
  let ?w = "library [1, 2, 3, 4, 5, 6, 7, 8, 9, 10]"
  have h1: "0 < nextDoc ?w" by code_simp
  have n: "nextDoc ?w = 1" by code_simp
  have c: "getPageCount ?w 0 = 10" by code_simp
  have h4: "(5::int) \<le> int (getPageCount ?w 0)" by (simp only: c)
  have t: "take (nat (5 - 3 + 1)) (drop (nat (3 - 1)) (docs ?w 0)) = [3, 4, 5]" by code_simp
  have s: "docs ?w 0 = [1, 2, 3, 4, 5, 6, 7, 8, 9, 10]" by code_simp
  from extractPages_copies_range [OF h1 _ _ h4, of 3] obtain copied w' where
    cp: "copied = take (nat (5 - 3 + 1)) (drop (nat (3 - 1)) (docs ?w 0))"
    and run: "extractPages 0 3 5 ?w = (Inr (nextDoc ?w), w')"
    and new: "docs w' (nextDoc ?w) = copied" and old: "docs w' 0 = docs ?w 0"
    by auto
  from run have f: "fst (extractPages 0 3 5 ?w) = Inr 1" by (simp only: fst_conv n)
  from run have sw: "snd (extractPages 0 3 5 ?w) = w'" by (simp only: snd_conv)
  from new cp have "docs w' 1 = [3, 4, 5]" by (simp only: n t)
  moreover from old have "docs w' 0 = [1, 2, 3, 4, 5, 6, 7, 8, 9, 10]" by (simp only: s)
  ultimately show ?thesis using h1 c f by (simp only: sw simp_thms)
qed

text \<open>
  C5, as the code has it. \<open>extractPages\<close> checks no bound. The bounds are checked by its
  caller: for a modal with a file path and a loaded document, \<open>validateInput\<close> answers
  \<open>InvalidNumbers\<close> when a page number is zero or \<open>start > end\<close>, and \<open>OutOfBounds N\<close> when
  \<open>start < 1\<close> or \<open>end > N\<close>; \<open>splitPDF\<close> then shows that message and returns, with the
  modal, the vault and the documents as they were.
\<close>

theorem invalid_range_stops_splitPDF:
  assumes "pdfPath m \<noteq> []" and "doc m = Some d"
    and "startPage m > endPage m \<or> endPage m > int (getPageCount w d) \<or> startPage m < 1"
  shows "\<exists>v.
      v = (if startPage m = 0 \<or> endPage m = 0 \<or> startPage m > endPage m then InvalidNumbers
           else OutOfBounds (getPageCount w d))
    \<and> validateInput m w = Some v
    \<and> splitPDF serialize toLowerCase m w
        = (m, w\<lparr>notices := notices w @ [ValidationNotice v]\<rparr>)"
  using validateInput_range [OF assms] splitPDF_rejects by blast

theorem invalid_range_stops_splitPDF_witness:
  "validateInput
     \<lparr>pdfPath = str ''out.pdf'', startPage = 2, endPage = 7, outputName = str ''part'',
      outputDir = [], doc = Some 0, isOpen = True\<rparr> (scenario []) = Some (OutOfBounds 3)
   \<and> splitPDF pageCodec (\<lambda>s. s)
     \<lparr>pdfPath = str ''out.pdf'', startPage = 2, endPage = 7, outputName = str ''part'',
      outputDir = [], doc = Some 0, isOpen = True\<rparr> (scenario [])
     = (\<lparr>pdfPath = str ''out.pdf'', startPage = 2, endPage = 7, outputName = str ''part'',
         outputDir = [], doc = Some 0, isOpen = True\<rparr>,
        (scenario [])\<lparr>notices := notices (scenario []) @ [ValidationNotice (OutOfBounds 3)]\<rparr>)"
proof -
  let ?m = "\<lparr>pdfPath = str ''out.pdf'', startPage = 2, endPage = 7, outputName = str ''part'',
      outputDir = [], doc = Some 0, isOpen = True\<rparr>"
  have h1: "pdfPath ?m \<noteq> []" by (simp add: str_def)
  have h2: "doc ?m = Some 0" by simp
  have c: "getPageCount (scenario []) 0 = 3" by code_simp
  have h3: "startPage ?m > endPage ?m \<or> endPage ?m > int (getPageCount (scenario []) 0)
      \<or> startPage ?m < 1"
    by (simp add: c)
  from invalid_range_stops_splitPDF [OF h1 h2 h3, of pageCodec "\<lambda>s. s"] c
  show ?thesis by simp
qed

text \<open>
  C5 as stated fails: \<open>extractPages\<close> called with \<open>start = 3\<close> and \<open>end = 2\<close> on a document
  of three pages throws nothing and returns a new document without pages.
\<close>

theorem extractPages_checks_no_bound:
  "(3::int) > 2
    \<and> fst (extractPages 0 3 2 (scenario [])) = Inr 1
    \<and> docs (snd (extractPages 0 3 2 (scenario []))) 1 = []
    \<and> nextDoc (snd (extractPages 0 3 2 (scenario []))) = 2"
  by code_simp

text \<open>
  C6, as the code has it. \<open>ensureDirectoryExists\<close> catches nothing. It returns only if
  every adapter call it made succeeded, and when a call fails, be it \<open>exists\<close> or
  \<open>mkdir\<close> and whatever the error, it stops there and throws that very error: an
  already-exists error of \<open>mkdir\<close> is propagated like any other.
\<close>

theorem ensureDirectoryExists_propagates:
  assumes "ensureDirectoryExists directory w = (r, w')"
  shows "propagated (faults w) r (faults w')"
proof (cases "directory = []")
  case True
  with assms show ?thesis by (auto simp: ensureDirectoryExists_def ret_def propagated_refl)
next
  case False
  with assms show ?thesis
    by (auto simp: ensureDirectoryExists_def dest: ensureLoop_propagated)
qed

text \<open>
  The folder \<^verbatim>\<open>a\<close> is created, then \<open>mkdir\<close> of \<^verbatim>\<open>a/b\<close> is refused: the error comes out
  as it is, and \<^verbatim>\<open>a\<close> stays.
\<close>

theorem ensureDirectoryExists_propagates_witness:
  "fst (ensureDirectoryExists (str ''a/b'')
          (scenario [None, None, None, Some ''EACCES: permission denied'']))
     = Inl (External ''EACCES: permission denied'')
    \<and> propagated [None, None, None, Some ''EACCES: permission denied'']
         (fst (ensureDirectoryExists (str ''a/b'')
                (scenario [None, None, None, Some ''EACCES: permission denied''])))
         []
    \<and> str ''a'' \<in> folders (snd (ensureDirectoryExists (str ''a/b'')
                (scenario [None, None, None, Some ''EACCES: permission denied''])))"
proof -
  let ?w = "scenario [None, None, None, Some ''EACCES: permission denied'']"
  let ?run = "ensureDirectoryExists (str ''a/b'') ?w"
  have r: "fst ?run = Inl (External ''EACCES: permission denied'')" by code_simp
  have f: "faults (snd ?run) = []" by code_simp
  have p: "faults ?w = [None, None, None, Some ''EACCES: permission denied'']" by code_simp
  have m: "str ''a'' \<in> folders (snd ?run)" by code_simp
  have "?run = (fst ?run, snd ?run)" by simp
  from ensureDirectoryExists_propagates [OF this]
  have "propagated [None, None, None, Some ''EACCES: permission denied''] (fst ?run) []"
    by (simp only: f p)
  with r m show ?thesis by blast
qed

text \<open>
  C6 as stated fails: the folder \<^verbatim>\<open>a\<close> is absent at the existence check and \<open>mkdir\<close>
  then fails because it exists by now. \<open>ensureDirectoryExists\<close> throws that error and
  never looks at \<^verbatim>\<open>a/b\<close>; its caller \<open>SafetyUtils_ensureSafeOutput\<close> reports a failed
  check.
\<close>

theorem ensureDirectoryExists_race_fails:
  "fst (ensureDirectoryExists (str ''a/b'')
          (scenario [None, Some ''EEXIST: file already exists'']))
     = Inl (External ''EEXIST: file already exists'')
    \<and> fst (SafetyUtils_ensureSafeOutput (str ''a/b/c.pdf'') None
          (scenario [None, Some ''EEXIST: file already exists'']))
     = Inr (SafetyCheckResult False (Some ''Safety check failed: EEXIST: file already exists''))"
  by code_simp

text \<open>
  C7, as the code has it. With an accepted path and an adapter that does not fail,
  \<open>ensureSafeOutput\<close> answers whether the write may go ahead. When nothing exists at the
  final path it answers \<open>true\<close> and shows nothing. When something exists it shows the
  prompt for that path, once, and answers what the user clicks, \<open>true\<close> for Overwrite
  and \<open>false\<close> for Cancel (no click, no result). No file changes.
\<close>

theorem ensureSafeOutput_answer:
  assumes "faults w = []" and "isPathInVault outputPath"
  shows "fst (ensureSafeOutput user outputPath w) =
     Inr (if files w (safePathOf outputPath) \<noteq> None \<or> safePathOf outputPath \<in> folders w
          then (case user of
                  None \<Rightarrow> None
                | Some Overwrite \<Rightarrow> Some True
                | Some Cancel \<Rightarrow> Some False)
          else Some True)
    \<and> notices (snd (ensureSafeOutput user outputPath w)) =
     (if files w (safePathOf outputPath) \<noteq> None \<or> safePathOf outputPath \<in> folders w
      then notices w @ [OverwritePrompt (safePathOf outputPath)]
      else notices w)
    \<and> files (snd (ensureSafeOutput user outputPath w)) = files w"
proof -
  let ?dir = "join slash (butlast (split slash outputPath))"
  let ?safe = "safePathOf outputPath"
  let ?w1 = "w\<lparr>folders :=
          (let directory = ?dir
           in if directory \<noteq> [] \<and> files w directory = None then insert directory (folders w)
              else folders w)\<rparr>"
  have v: "validateAndCreatePath outputPath w = (Inr ?safe, ?w1)"
    using assms by (rule validateAndCreatePath_nofault)
  have f1: "faults ?w1 = []" using assms(1) by simp
  then have w1: "?w1\<lparr>faults := []\<rparr> = ?w1" by simp
  have mem: "?safe \<in> folders ?w1 \<longleftrightarrow> ?safe \<in> folders w"
    using safePathOf_not_directory [of outputPath] by (auto simp: Let_def)
  have "adapter_exists ?safe ?w1 = (Inr (files ?w1 ?safe \<noteq> None \<or> ?safe \<in> folders ?w1), ?w1)"
    unfolding adapter_exists_def adapterCall_def f1 by (simp only: list.case list.sel w1)
  then have ex: "adapter_exists ?safe ?w1 = (Inr (files w ?safe \<noteq> None \<or> ?safe \<in> folders w), ?w1)"
    using mem by simp
  show ?thesis
    unfolding ensureSafeOutput_def
    by (simp add: andThen_def v ex showNotice_def ret_def)
qed

theorem ensureSafeOutput_answer_witness:
  "faults (scenario []) = [] \<and> isPathInVault (str ''out.pdf'')
    \<and> safePathOf (str ''out.pdf'') = str ''out.pdf''
    \<and> files (scenario []) (str ''out.pdf'') = Some [1, 2, 3]
    \<and> notices (scenario []) = []
    \<and> fst (ensureSafeOutput (Some Overwrite) (str ''out.pdf'') (scenario [])) = Inr (Some True)
    \<and> notices (snd (ensureSafeOutput (Some Overwrite) (str ''out.pdf'') (scenario [])))
         = [OverwritePrompt (str ''out.pdf'')]"
proof -
  have h1: "faults (scenario []) = []" by code_simp
  have h2: "isPathInVault (str ''out.pdf'')" by code_simp
  have p: "safePathOf (str ''out.pdf'') = str ''out.pdf''" by code_simp
  have e: "files (scenario []) (str ''out.pdf'') = Some [1, 2, 3]" by code_simp
  have n: "notices (scenario []) = []" by code_simp
  from ensureSafeOutput_answer [OF h1 h2, of "Some Overwrite"]
  have "fst (ensureSafeOutput (Some Overwrite) (str ''out.pdf'') (scenario [])) = Inr (Some True)"
    and "notices (snd (ensureSafeOutput (Some Overwrite) (str ''out.pdf'') (scenario [])))
         = [OverwritePrompt (str ''out.pdf'')]"
    unfolding p by (simp_all add: e n)
  with h1 h2 p e n show ?thesis by blast
qed

text \<open>
  C7 as stated fails both ways: nothing exists at \<^verbatim>\<open>new.pdf\<close> and the answer is \<open>true\<close>;
  \<^verbatim>\<open>out.pdf\<close> exists, the user cancels, and the answer is \<open>false\<close>.
\<close>

theorem ensureSafeOutput_is_no_existence_test:
  "files (scenario []) (safePathOf (str ''new.pdf'')) = None
    \<and> fst (ensureSafeOutput (Some Cancel) (str ''new.pdf'') (scenario [])) = Inr (Some True)
    \<and> files (scenario []) (safePathOf (str ''out.pdf'')) = Some [1, 2, 3]
    \<and> fst (ensureSafeOutput (Some Cancel) (str ''out.pdf'') (scenario [])) = Inr (Some False)"
  by code_simp

end
